theory Spec2Isabelle
  imports Main
begin

section \<open>The expression language\<close>

text \<open>
  Modelled from the spec: the IR data types are declared outside the prover's file. An
  expression is an immutable tree over integer, unsigned, float and string literals, typed
  variables, casts, calls \<^verbatim>\<open>Call(name, args, value_index, call_kind)\<close>, binary arithmetic,
  extrema, boolean connectives, comparisons, \<^verbatim>\<open>Select\<close> and \<^verbatim>\<open>Let\<close>. A type is a code, a
  width in bits and a lane count. The binary node classes share one constructor \<open>Bin\<close> that
  carries the class as a tag. A float literal is kept as mantissa and exponent and is never
  interpreted. A call also records whether its \<^verbatim>\<open>func\<close> pointer is defined, because the
  rewriter asserts on it.
\<close>

datatype TypeCode = TInt | TUInt | TFloat | THandle

datatype Type = Type (code: TypeCode) (bits: nat) (lanes: nat)

datatype CallType = Image | Extern | ExternCPlusPlus | PureExtern | Halide | Intrinsic | PureIntrinsic

datatype BinaryOp = Add | Sub | Mul | Div | Mod | Min_op | Max_op
  | EQ | NE | LT | LE | GT | GE | And | Or

datatype Expr =
    IntImm Type int
  | UIntImm Type nat
  | FloatImm Type int int
  | StringImm string
  | Variable Type string
  | Cast Type Expr
  | Bin BinaryOp Expr Expr
  | Not_op Expr
  | Select Expr Expr Expr
  | Let_expr string Expr Expr
  | Call Type string "Expr list" CallType bool nat

text \<open>
  Modelled from the spec: every node carries a type. Arithmetic and extrema have the type of
  their first operand, comparisons and connectives are boolean (one unsigned bit per lane), a
  \<^verbatim>\<open>Select\<close> has the type of its true value and a \<^verbatim>\<open>Let\<close> that of its body.
\<close>

definition is_comparison :: "BinaryOp \<Rightarrow> bool" where
  "is_comparison b = (b \<in> {EQ, NE, LT, LE, GT, GE, And, Or})"

fun type_of :: "Expr \<Rightarrow> Type" where
  "type_of (IntImm t v) = t"
| "type_of (UIntImm t v) = t"
| "type_of (FloatImm t m e) = t"
| "type_of (StringImm v) = Type THandle 64 1"
| "type_of (Variable t n) = t"
| "type_of (Cast t a) = t"
| "type_of (Bin b a c) = (if is_comparison b then Type TUInt 1 (lanes (type_of a)) else type_of a)"
| "type_of (Not_op a) = type_of a"
| "type_of (Select c t f) = type_of t"
| "type_of (Let_expr n v b) = type_of b"
| "type_of (Call t name cargs ct fdef vi) = t"

text \<open>
  Modelled from the spec: \<^verbatim>\<open>expr_uses_var(Expr, name)\<close> scans the expression for a variable
  node with the given name, and \<^verbatim>\<open>expr_uses_vars(Expr, scope)\<close> for one whose name is in the
  scope. The prover applies both to expressions whose lets have been substituted away.
\<close>

fun expr_uses_var :: "Expr \<Rightarrow> string \<Rightarrow> bool"
  and exprs_use_var :: "Expr list \<Rightarrow> string \<Rightarrow> bool" where
  "expr_uses_var (IntImm t v) x = False"
| "expr_uses_var (UIntImm t v) x = False"
| "expr_uses_var (FloatImm t m e) x = False"
| "expr_uses_var (StringImm v) x = False"
| "expr_uses_var (Variable t n) x = (n = x)"
| "expr_uses_var (Cast t a) x = expr_uses_var a x"
| "expr_uses_var (Bin b a c) x = (expr_uses_var a x \<or> expr_uses_var c x)"
| "expr_uses_var (Not_op a) x = expr_uses_var a x"
| "expr_uses_var (Select c t f) x = (expr_uses_var c x \<or> expr_uses_var t x \<or> expr_uses_var f x)"
| "expr_uses_var (Let_expr n v b) x = (expr_uses_var v x \<or> expr_uses_var b x)"
| "expr_uses_var (Call t name cargs ct fdef vi) x = exprs_use_var cargs x"
| "exprs_use_var [] x = False"
| "exprs_use_var (a # as) x = (expr_uses_var a x \<or> exprs_use_var as x)"

definition expr_uses_vars :: "Expr \<Rightarrow> string list \<Rightarrow> bool" where
  "expr_uses_vars e scope = list_ex (expr_uses_var e) scope"

text \<open>
  Modelled from the spec: \<^verbatim>\<open>substitute(find, replacement, e)\<close> replaces every occurrence of
  the expression \<^verbatim>\<open>find\<close> in \<^verbatim>\<open>e\<close> by \<^verbatim>\<open>replacement\<close>, from the root downwards: a node equal
  to \<^verbatim>\<open>find\<close> is replaced as a whole, any other node is rebuilt from its substituted children.
\<close>

fun substitute :: "Expr \<Rightarrow> Expr \<Rightarrow> Expr \<Rightarrow> Expr"
  and substitute_list :: "Expr \<Rightarrow> Expr \<Rightarrow> Expr list \<Rightarrow> Expr list" where
  "substitute find_expr replacement (Cast t a) =
     (if Cast t a = find_expr then replacement else Cast t (substitute find_expr replacement a))"
| "substitute find_expr replacement (Bin b a c) =
     (if Bin b a c = find_expr then replacement
      else Bin b (substitute find_expr replacement a) (substitute find_expr replacement c))"
| "substitute find_expr replacement (Not_op a) =
     (if Not_op a = find_expr then replacement else Not_op (substitute find_expr replacement a))"
| "substitute find_expr replacement (Select c t f) =
     (if Select c t f = find_expr then replacement
      else Select (substitute find_expr replacement c) (substitute find_expr replacement t)
             (substitute find_expr replacement f))"
| "substitute find_expr replacement (Let_expr n v b) =
     (if Let_expr n v b = find_expr then replacement
      else Let_expr n (substitute find_expr replacement v) (substitute find_expr replacement b))"
| "substitute find_expr replacement (Call t name cargs ct fdef vi) =
     (if Call t name cargs ct fdef vi = find_expr then replacement
      else Call t name (substitute_list find_expr replacement cargs) ct fdef vi)"
| "substitute find_expr replacement e = (if e = find_expr then replacement else e)"
| "substitute_list find_expr replacement [] = []"
| "substitute_list find_expr replacement (a # as) =
     substitute find_expr replacement a # substitute_list find_expr replacement as"

text \<open>\<^verbatim>\<open>std::to_string\<close> on a tuple index: the decimal digits of a natural number.\<close>

definition digit_char :: "nat \<Rightarrow> char" where
  "digit_char d = ''0123456789'' ! d"

function to_string :: "nat \<Rightarrow> string" where
  "to_string n =
     (if n < 10 then [digit_char n]
      else to_string (n div 10) @ [digit_char (n mod 10)])"
  by pat_completeness auto
termination
  by (relation "measure id") auto

declare to_string.simps [simp del]

section \<open>The result value\<close>

text \<open>
  Modelled from the spec: the header that declares the result is not part of the prover's
  file. An expression handle may be undefined, which is \<^const>\<open>None\<close>. A replacement is a
  variable name with an expression; a pattern holds \<open>N\<close> operators, \<open>N\<close> identities and the
  commutativity flag; the result holds a pattern, the \<open>x\<close> and \<open>y\<close> replacements and the flag
  \<open>is_associative\<close>. The constructor with a size builds \<open>N\<close> undefined entries and a false flag;
  the default constructor builds the empty result with a false flag.
\<close>

record Replacement =
  var :: string
  expr :: "Expr option"

record AssociativePattern =
  ops :: "Expr option list"
  identities :: "Expr option list"
  is_commutative :: bool

record AssociativeOp =
  pattern :: AssociativePattern
  xs :: "Replacement list"
  ys :: "Replacement list"
  is_associative :: bool

definition AssociativePattern_sized :: "nat \<Rightarrow> AssociativePattern" where
  "AssociativePattern_sized n =
     \<lparr>ops = replicate n None, identities = replicate n None, is_commutative = False\<rparr>"

definition AssociativeOp_sized :: "nat \<Rightarrow> AssociativeOp" where
  "AssociativeOp_sized n =
     \<lparr>pattern = AssociativePattern_sized n,
      xs = replicate n \<lparr>var = [], expr = None\<rparr>,
      ys = replicate n \<lparr>var = [], expr = None\<rparr>,
      is_associative = False\<rparr>"

definition AssociativeOp_default :: AssociativeOp where
  "AssociativeOp_default = AssociativeOp_sized 0"

text \<open>Writes to one entry of the result's vectors.\<close>

definition set_op :: "nat \<Rightarrow> Expr option \<Rightarrow> AssociativeOp \<Rightarrow> AssociativeOp" where
  "set_op index v a = a\<lparr>pattern := (pattern a)\<lparr>ops := (ops (pattern a))[index := v]\<rparr>\<rparr>"

definition set_identity :: "nat \<Rightarrow> Expr option \<Rightarrow> AssociativeOp \<Rightarrow> AssociativeOp" where
  "set_identity index v a =
     a\<lparr>pattern := (pattern a)\<lparr>identities := (identities (pattern a))[index := v]\<rparr>\<rparr>"

definition set_x :: "nat \<Rightarrow> Replacement \<Rightarrow> AssociativeOp \<Rightarrow> AssociativeOp" where
  "set_x index r a = a\<lparr>xs := (xs a)[index := r]\<rparr>"

definition set_y :: "nat \<Rightarrow> Replacement \<Rightarrow> AssociativeOp \<Rightarrow> AssociativeOp" where
  "set_y index r a = a\<lparr>ys := (ys a)[index := r]\<rparr>"

text \<open>
  How a call of the prover ends: it returns a value, the process stops (an internal assertion
  is violated, or an undefined expression is dereferenced), or a loop never ends.
\<close>

datatype 'a outcome = Diverged | Aborted | Returned 'a

section \<open>External collaborators\<close>

text \<open>
  Modelled from the spec: the simplifier, common-subexpression elimination, let substitution,
  the single-variable solver (its \<^verbatim>\<open>result\<close> field), the wildcard matcher (the bindings it
  found, or \<^const>\<open>None\<close> when the pattern does not match), the pattern table and the typed
  constants are functions of other files. The prover is a function of them; nothing is assumed
  about them. Debug tracing prints and has no effect on the result.
\<close>

record externals =
  simplify :: "Expr \<Rightarrow> Expr"
  common_subexpression_elimination :: "Expr \<Rightarrow> Expr"
  substitute_in_all_lets :: "Expr \<Rightarrow> Expr"
  solve_expression :: "Expr \<Rightarrow> string \<Rightarrow> Expr"
  expr_match :: "Expr \<Rightarrow> Expr \<Rightarrow> (string \<times> Expr) list option"
  get_ops_table :: "Expr list \<Rightarrow> AssociativePattern list"
  make_const :: "Type \<Rightarrow> int \<Rightarrow> Expr"
  type_max :: "Type \<Rightarrow> Expr"
  type_min :: "Type \<Rightarrow> Expr"

section \<open>The self-reference rewriter\<close>

text \<open>
  The class \<^verbatim>\<open>ConvertSelfRef\<close>: its four constant members, the flag \<^verbatim>\<open>is_conditional\<close> and
  its three public results. \<open>mutator_expr\<close> is the member \<^verbatim>\<open>expr\<close> of the base class
  \<^verbatim>\<open>IRMutator\<close>, undefined until a visit assigns it; \<^verbatim>\<open>mutate\<close> returns what it holds when the
  visit is over. \<open>assert_failed\<close> records that an \<^verbatim>\<open>internal_assert\<close> was violated; the caller
  turns it into \<^const>\<open>Aborted\<close>.
\<close>

record ConvertSelfRef =
  func :: string
  args :: "Expr list"
  value_index :: nat
  op_x_names :: "string list"
  is_conditional :: bool
  is_solvable :: bool
  x_dependencies :: "nat set"
  x_part :: "Expr option"
  mutator_expr :: "Expr option"
  assert_failed :: bool

definition ConvertSelfRef_init :: "string \<Rightarrow> Expr list \<Rightarrow> nat \<Rightarrow> string list \<Rightarrow> ConvertSelfRef" where
  "ConvertSelfRef_init f lhs_args idx x_names =
     \<lparr>func = f, args = lhs_args, value_index = idx, op_x_names = x_names,
      is_conditional = False, is_solvable = True, x_dependencies = {}, x_part = None,
      mutator_expr = None, assert_failed = False\<rparr>"

text \<open>
  \<^verbatim>\<open>visit(const Call *)\<close> after the arguments have been mutated: \<open>cargs\<close> are the mutated
  arguments. The checks come in the order of the source: the two assertions, the conditional
  self-reference, the comparison of the arguments with those of the left-hand side, the
  assertion on the value index, then the substitution. The expression returned is the one
  the visit leaves in \<^verbatim>\<open>expr\<close>.
\<close>

definition visit_self_call :: "Type \<Rightarrow> string \<Rightarrow> Expr list \<Rightarrow> CallType \<Rightarrow> bool \<Rightarrow> nat
    \<Rightarrow> ConvertSelfRef \<Rightarrow> Expr \<times> ConvertSelfRef" where
  "visit_self_call t name cargs ct fdef vi s =
     (let op = Call t name cargs ct fdef vi in
      if ct = Halide \<and> func s = name then
        if fdef then (op, s\<lparr>assert_failed := True\<rparr>)
        else if length (args s) \<noteq> length cargs then (op, s\<lparr>assert_failed := True\<rparr>)
        else if is_conditional s \<and> vi = value_index s then (op, s\<lparr>is_solvable := False\<rparr>)
        else if cargs \<noteq> args s then (op, s\<lparr>is_solvable := False\<rparr>)
        else if \<not> vi < length (op_x_names s) then (op, s\<lparr>assert_failed := True\<rparr>)
        else (Variable t (op_x_names s ! vi),
              if vi = value_index s then s\<lparr>x_part := Some op\<rparr>
              else s\<lparr>x_dependencies := insert vi (x_dependencies s)\<rparr>)
      else (op, s))"

text \<open>
  The assignment \<^verbatim>\<open>expr = e\<close> that ends a visit, and the value \<^verbatim>\<open>mutate\<close> then returns.
\<close>

definition assign :: "Expr \<Rightarrow> ConvertSelfRef \<Rightarrow> Expr option \<times> ConvertSelfRef" where
  "assign e s = (Some e, s\<lparr>mutator_expr := Some e\<rparr>)"

text \<open>
  Modelled from the spec: the constructors of the IR nodes (\<^verbatim>\<open>Cast::make\<close>, \<^verbatim>\<open>Add::make\<close>, ...)
  are in another file; each asserts that its operands are defined. Their checks on the types
  of the operands are not modelled.
\<close>

definition undefined_operand :: "ConvertSelfRef \<Rightarrow> Expr option \<times> ConvertSelfRef" where
  "undefined_operand s = (None, s\<lparr>assert_failed := True\<rparr>)"

definition build1 :: "(Expr \<Rightarrow> Expr) \<Rightarrow> Expr option \<Rightarrow> ConvertSelfRef
    \<Rightarrow> Expr option \<times> ConvertSelfRef" where
  "build1 mk a s = (case a of Some a' \<Rightarrow> assign (mk a') s | None \<Rightarrow> undefined_operand s)"

definition build2 :: "(Expr \<Rightarrow> Expr \<Rightarrow> Expr) \<Rightarrow> Expr option \<Rightarrow> Expr option \<Rightarrow> ConvertSelfRef
    \<Rightarrow> Expr option \<times> ConvertSelfRef" where
  "build2 mk a c s =
     (case a of
        Some a' \<Rightarrow> (case c of Some c' \<Rightarrow> assign (mk a' c') s | None \<Rightarrow> undefined_operand s)
      | None \<Rightarrow> undefined_operand s)"

definition build3 :: "(Expr \<Rightarrow> Expr \<Rightarrow> Expr \<Rightarrow> Expr) \<Rightarrow> Expr option \<Rightarrow> Expr option \<Rightarrow> Expr option
    \<Rightarrow> ConvertSelfRef \<Rightarrow> Expr option \<times> ConvertSelfRef" where
  "build3 mk a c d s =
     (case a of
        Some a' \<Rightarrow>
          (case c of
             Some c' \<Rightarrow> (case d of Some d' \<Rightarrow> assign (mk a' c' d') s
                         | None \<Rightarrow> undefined_operand s)
           | None \<Rightarrow> undefined_operand s)
      | None \<Rightarrow> undefined_operand s)"

text \<open>
  The call node after \<^verbatim>\<open>IRMutator::visit(const Call *)\<close> has mutated the arguments: the node is
  rebuilt from them, and \<^verbatim>\<open>ConvertSelfRef::visit\<close> goes on with its checks.
\<close>

definition build_call :: "Type \<Rightarrow> string \<Rightarrow> Expr option list \<Rightarrow> CallType \<Rightarrow> bool \<Rightarrow> nat
    \<Rightarrow> ConvertSelfRef \<Rightarrow> Expr option \<times> ConvertSelfRef" where
  "build_call t name cargs ct fdef vi s =
     (if list_all (\<lambda>a. a \<noteq> None) cargs
      then (let (e, s') = visit_self_call t name (map the cargs) ct fdef vi s in assign e s')
      else undefined_operand s)"

text \<open>
  The mutator, \<^verbatim>\<open>mutate\<close> with the visit it dispatches to. Modelled from the spec for the node
  classes the class does not override: "all other expression shapes recurse structurally",
  children from left to right, and the visit ends by assigning the rebuilt node to \<^verbatim>\<open>expr\<close>.
  \<^verbatim>\<open>Select\<close> sets the flag around the condition and clears it before the two values, as the
  source does. A call visited when the update is already unsolvable returns at once and
  assigns nothing: \<^verbatim>\<open>mutate\<close> then returns the expression of the visit that assigned last.
\<close>

fun mutate :: "Expr \<Rightarrow> ConvertSelfRef \<Rightarrow> Expr option \<times> ConvertSelfRef"
  and mutate_list :: "Expr list \<Rightarrow> ConvertSelfRef \<Rightarrow> Expr option list \<times> ConvertSelfRef" where
  "mutate (IntImm t v) s = assign (IntImm t v) s"
| "mutate (UIntImm t v) s = assign (UIntImm t v) s"
| "mutate (FloatImm t m e) s = assign (FloatImm t m e) s"
| "mutate (StringImm v) s = assign (StringImm v) s"
| "mutate (Variable t n) s = assign (Variable t n) s"
| "mutate (Cast t a) s = (let (a', s1) = mutate a s in build1 (Cast t) a' s1)"
| "mutate (Bin b a c) s =
     (let (a', s1) = mutate a s; (c', s2) = mutate c s1 in build2 (Bin b) a' c' s2)"
| "mutate (Not_op a) s = (let (a', s1) = mutate a s in build1 Not_op a' s1)"
| "mutate (Select c t f) s =
     (let (c', s1) = mutate c (s\<lparr>is_conditional := True\<rparr>);
          (t', s2) = mutate t (s1\<lparr>is_conditional := False\<rparr>);
          (f', s3) = mutate f s2
      in build3 Select c' t' f' s3)"
| "mutate (Let_expr n v b) s =
     (let (v', s1) = mutate v s; (b', s2) = mutate b s1 in build2 (Let_expr n) v' b' s2)"
| "mutate (Call t name cargs ct fdef vi) s =
     (if \<not> is_solvable s then (mutator_expr s, s)
      else let (cargs', s1) = mutate_list cargs s
           in build_call t name cargs' ct fdef vi s1)"
| "mutate_list [] s = ([], s)"
| "mutate_list (a # as) s =
     (let (a', s1) = mutate a s; (as', s2) = mutate_list as s1 in (a' # as', s2))"

text \<open>
  What the claims about the rewriter speak of: a self-call of \<open>f\<close> at value index \<open>vi\<close> occurs
  in an expression; an expression contains no \<^verbatim>\<open>Select\<close>; a self-call occurs in the condition
  of a \<^verbatim>\<open>Select\<close> (that condition holding no further \<^verbatim>\<open>Select\<close>); a self-call occurs in the
  condition or in one of the two values of a \<^verbatim>\<open>Select\<close>.
\<close>

fun has_self_call :: "string \<Rightarrow> nat \<Rightarrow> Expr \<Rightarrow> bool"
  and have_self_call :: "string \<Rightarrow> nat \<Rightarrow> Expr list \<Rightarrow> bool" where
  "has_self_call f vi (Cast t a) = has_self_call f vi a"
| "has_self_call f vi (Bin b a c) = (has_self_call f vi a \<or> has_self_call f vi c)"
| "has_self_call f vi (Not_op a) = has_self_call f vi a"
| "has_self_call f vi (Select c t e) =
     (has_self_call f vi c \<or> has_self_call f vi t \<or> has_self_call f vi e)"
| "has_self_call f vi (Let_expr n v b) = (has_self_call f vi v \<or> has_self_call f vi b)"
| "has_self_call f vi (Call t name cargs ct fdef vi') =
     ((ct = Halide \<and> name = f \<and> vi' = vi) \<or> have_self_call f vi cargs)"
| "has_self_call f vi e = False"
| "have_self_call f vi [] = False"
| "have_self_call f vi (a # as) = (has_self_call f vi a \<or> have_self_call f vi as)"

fun select_free :: "Expr \<Rightarrow> bool"
  and selects_free :: "Expr list \<Rightarrow> bool" where
  "select_free (Cast t a) = select_free a"
| "select_free (Bin b a c) = (select_free a \<and> select_free c)"
| "select_free (Not_op a) = select_free a"
| "select_free (Select c t e) = False"
| "select_free (Let_expr n v b) = (select_free v \<and> select_free b)"
| "select_free (Call t name cargs ct fdef vi) = selects_free cargs"
| "select_free e = True"
| "selects_free [] = True"
| "selects_free (a # as) = (select_free a \<and> selects_free as)"

fun self_call_in_condition :: "string \<Rightarrow> nat \<Rightarrow> Expr \<Rightarrow> bool"
  and self_call_in_conditions :: "string \<Rightarrow> nat \<Rightarrow> Expr list \<Rightarrow> bool" where
  "self_call_in_condition f vi (Cast t a) = self_call_in_condition f vi a"
| "self_call_in_condition f vi (Bin b a c) =
     (self_call_in_condition f vi a \<or> self_call_in_condition f vi c)"
| "self_call_in_condition f vi (Not_op a) = self_call_in_condition f vi a"
| "self_call_in_condition f vi (Select c t e) =
     ((select_free c \<and> has_self_call f vi c) \<or> self_call_in_condition f vi c
      \<or> self_call_in_condition f vi t \<or> self_call_in_condition f vi e)"
| "self_call_in_condition f vi (Let_expr n v b) =
     (self_call_in_condition f vi v \<or> self_call_in_condition f vi b)"
| "self_call_in_condition f vi (Call t name cargs ct fdef vi') =
     self_call_in_conditions f vi cargs"
| "self_call_in_condition f vi e = False"
| "self_call_in_conditions f vi [] = False"
| "self_call_in_conditions f vi (a # as) =
     (self_call_in_condition f vi a \<or> self_call_in_conditions f vi as)"

fun self_call_in_select :: "string \<Rightarrow> nat \<Rightarrow> Expr \<Rightarrow> bool"
  and self_call_in_selects :: "string \<Rightarrow> nat \<Rightarrow> Expr list \<Rightarrow> bool" where
  "self_call_in_select f vi (Cast t a) = self_call_in_select f vi a"
| "self_call_in_select f vi (Bin b a c) =
     (self_call_in_select f vi a \<or> self_call_in_select f vi c)"
| "self_call_in_select f vi (Not_op a) = self_call_in_select f vi a"
| "self_call_in_select f vi (Select c t e) =
     (has_self_call f vi c \<or> has_self_call f vi t \<or> has_self_call f vi e)"
| "self_call_in_select f vi (Let_expr n v b) =
     (self_call_in_select f vi v \<or> self_call_in_select f vi b)"
| "self_call_in_select f vi (Call t name cargs ct fdef vi') = self_call_in_selects f vi cargs"
| "self_call_in_select f vi e = False"
| "self_call_in_selects f vi [] = False"
| "self_call_in_selects f vi (a # as) =
     (self_call_in_select f vi a \<or> self_call_in_selects f vi as)"

text \<open>
  A self-call is well formed when its \<^verbatim>\<open>func\<close> pointer is undefined, it has as many
  arguments as the left-hand side (\<open>n\<close>) and its value index is below the size of the tuple
  (\<open>m\<close>): the three properties the visitor asserts.
\<close>

fun calls_well_formed :: "string \<Rightarrow> nat \<Rightarrow> nat \<Rightarrow> Expr \<Rightarrow> bool"
  and calls_well_formed_list :: "string \<Rightarrow> nat \<Rightarrow> nat \<Rightarrow> Expr list \<Rightarrow> bool" where
  "calls_well_formed f n m (Cast t a) = calls_well_formed f n m a"
| "calls_well_formed f n m (Bin b a c) = (calls_well_formed f n m a \<and> calls_well_formed f n m c)"
| "calls_well_formed f n m (Not_op a) = calls_well_formed f n m a"
| "calls_well_formed f n m (Select c t e) =
     (calls_well_formed f n m c \<and> calls_well_formed f n m t \<and> calls_well_formed f n m e)"
| "calls_well_formed f n m (Let_expr k v b) =
     (calls_well_formed f n m v \<and> calls_well_formed f n m b)"
| "calls_well_formed f n m (Call t name cargs ct fdef vi) =
     (calls_well_formed_list f n m cargs
      \<and> (if ct = Halide \<and> name = f then \<not> fdef \<and> length cargs = n \<and> vi < m else True))"
| "calls_well_formed f n m e = True"
| "calls_well_formed_list f n m [] = True"
| "calls_well_formed_list f n m (a # as) =
     (calls_well_formed f n m a \<and> calls_well_formed_list f n m as)"




text \<open>
  The expression with every self-call of \<open>f\<close> replaced by the variable that \<open>x_names\<close> has for
  its value index.
\<close>

fun replace_self_calls :: "string \<Rightarrow> string list \<Rightarrow> Expr \<Rightarrow> Expr"
  and replace_self_calls_list :: "string \<Rightarrow> string list \<Rightarrow> Expr list \<Rightarrow> Expr list" where
  "replace_self_calls f x_names (Cast t a) = Cast t (replace_self_calls f x_names a)"
| "replace_self_calls f x_names (Bin b a c) =
     Bin b (replace_self_calls f x_names a) (replace_self_calls f x_names c)"
| "replace_self_calls f x_names (Not_op a) = Not_op (replace_self_calls f x_names a)"
| "replace_self_calls f x_names (Select c t e) =
     Select (replace_self_calls f x_names c) (replace_self_calls f x_names t)
       (replace_self_calls f x_names e)"
| "replace_self_calls f x_names (Let_expr n v b) =
     Let_expr n (replace_self_calls f x_names v) (replace_self_calls f x_names b)"
| "replace_self_calls f x_names (Call t name cargs ct fdef vi) =
     (if ct = Halide \<and> name = f then Variable t (x_names ! vi)
      else Call t name (replace_self_calls_list f x_names cargs) ct fdef vi)"
| "replace_self_calls f x_names e = e"
| "replace_self_calls_list f x_names [] = []"
| "replace_self_calls_list f x_names (a # as) =
     replace_self_calls f x_names a # replace_self_calls_list f x_names as"
section \<open>The pattern-table matcher\<close>

text \<open>
  A \<^verbatim>\<open>map<string, Expr>\<close> is an association list read with \<^const>\<open>map_of\<close>. The last loop
  of \<^verbatim>\<open>associative_op_pattern_match\<close> merges the new bindings into the earlier ones: a new
  name is added, a name bound before must be bound to an equal expression.
\<close>

fun merge_matches :: "(string \<times> Expr) list \<Rightarrow> (string \<times> Expr) list \<Rightarrow> (string \<times> Expr) list option" where
  "merge_matches [] match = Some match"
| "merge_matches ((k, v) # rest) match =
     (case map_of match k of
        None \<Rightarrow> merge_matches rest (match @ [(k, v)])
      | Some v' \<Rightarrow> if v = v' then merge_matches rest match else None)"

text \<open>The test of the first loop: \<^verbatim>\<open>x<i>\<close> is bound, and not to the variable \<^verbatim>\<open>x_names[i]\<close>.\<close>

definition x_part_differs :: "(string \<times> Expr) list \<Rightarrow> string list \<Rightarrow> nat \<Rightarrow> bool" where
  "x_part_differs result x_names i =
     (case map_of result (''x'' @ to_string i) of
        None \<Rightarrow> False
      | Some (Variable t n) \<Rightarrow> n \<noteq> x_names ! i
      | Some _ \<Rightarrow> True)"

text \<open>The test of the second loop: \<^verbatim>\<open>y<i>\<close> is bound to an expression that uses an \<open>x\<close> variable.\<close>

definition y_part_uses_x :: "(string \<times> Expr) list \<Rightarrow> string list \<Rightarrow> nat \<Rightarrow> bool" where
  "y_part_uses_x result x_scope i =
     (case map_of result (''y'' @ to_string i) of
        None \<Rightarrow> False
      | Some y_part \<Rightarrow> expr_uses_vars y_part x_scope)"

text \<open>
  \<^verbatim>\<open>associative_op_pattern_match\<close>: \<open>Returned None\<close> is the result \<^verbatim>\<open>false\<close>, \<open>Returned (Some
  match')\<close> is \<^verbatim>\<open>true\<close> with the updated map. When the source returns \<^verbatim>\<open>false\<close> its caller
  drops the map.

  The debug statement that follows a successful \<^verbatim>\<open>expr_match\<close> reads \<^verbatim>\<open>result["y0"]\<close>, which
  adds the name \<open>y0\<close> with an undefined expression when the match did not bind it. The second
  loop then finds \<open>y0\<close> and hands the undefined expression to \<^verbatim>\<open>expr_uses_vars\<close>, which
  dereferences it: the process stops. \<^verbatim>\<open>find_match\<close> calls this function with as many names as
  the table entry has operators, so with one name at least; with no name at all the undefined
  binding is read by nobody and is left out of the map here.
\<close>

definition associative_op_pattern_match :: "externals \<Rightarrow> Expr \<Rightarrow> Expr \<Rightarrow> string list \<Rightarrow> string list
    \<Rightarrow> string list \<Rightarrow> (string \<times> Expr) list \<Rightarrow> (string \<times> Expr) list option outcome" where
  "associative_op_pattern_match ext e op x_names y_names x_scope match =
     (case expr_match ext op e of
        None \<Rightarrow> Returned None
      | Some result \<Rightarrow>
          if list_ex (x_part_differs result x_names) [0..<length x_names] then Returned None
          else if y_names \<noteq> [] \<and> map_of result (''y'' @ to_string (0::nat)) = None then Aborted
          else if list_ex (y_part_uses_x result x_scope) [0..<length y_names] then Returned None
          else Returned (merge_matches result match))"

text \<open>
  The loop of \<^verbatim>\<open>find_match\<close> over the operators of one table entry. The entries of the
  table are defined expressions; an undefined one matches nothing.
\<close>

fun match_ops :: "externals \<Rightarrow> Expr list \<Rightarrow> Expr option list \<Rightarrow> string list \<Rightarrow> string list
    \<Rightarrow> nat list \<Rightarrow> (string \<times> Expr) list \<Rightarrow> (string \<times> Expr) list option outcome" where
  "match_ops ext exprs pattern_ops x_names y_names [] pattern_match =
     Returned (Some pattern_match)"
| "match_ops ext exprs pattern_ops x_names y_names (i # rest) pattern_match =
     (case pattern_ops ! i of
        None \<Rightarrow> Returned None
      | Some op \<Rightarrow>
         (case associative_op_pattern_match ext (exprs ! i) op x_names y_names x_names
                 pattern_match of
            Returned (Some pattern_match') \<Rightarrow>
              match_ops ext exprs pattern_ops x_names y_names rest pattern_match'
          | Returned None \<Rightarrow> Returned None
          | Aborted \<Rightarrow> Aborted
          | Diverged \<Rightarrow> Diverged))"

text \<open>
  The loop that writes the \<open>x\<close> and \<open>y\<close> replacements and collects the pairs to substitute. It
  stops with \<^verbatim>\<open>matched = false\<close> at the first \<^verbatim>\<open>y<index>\<close> the match did not bind; what it
  wrote before stays written.
\<close>

fun collect_replacement :: "(string \<times> Expr) list \<Rightarrow> string list \<Rightarrow> string list
    \<Rightarrow> Expr option list \<Rightarrow> nat list \<Rightarrow> AssociativeOp \<Rightarrow> (Expr \<times> Expr) list
    \<Rightarrow> bool \<times> AssociativeOp \<times> (Expr \<times> Expr) list" where
  "collect_replacement pattern_match x_names y_names x_parts [] assoc_op replacement =
     (True, assoc_op, replacement)"
| "collect_replacement pattern_match x_names y_names x_parts (index # rest) assoc_op replacement =
     (case map_of pattern_match (''y'' @ to_string index) of
        None \<Rightarrow> (False, assoc_op, replacement)
      | Some y_part \<Rightarrow>
          collect_replacement pattern_match x_names y_names x_parts rest
            (set_y index \<lparr>var = y_names ! index, expr = Some y_part\<rparr>
               (set_x index \<lparr>var = x_names ! index, expr = x_parts ! index\<rparr> assoc_op))
            (replacement @ [(y_part, Variable (type_of y_part) (y_names ! index))]))"

text \<open>
  The inner loop of the rebuilding step: the pairs are substituted one after the other, in the
  order in which they were collected, each into the result of the one before.
\<close>

definition substitute_all :: "(Expr \<times> Expr) list \<Rightarrow> Expr \<Rightarrow> Expr" where
  "substitute_all replacement e =
     fold (\<lambda>iter e'. substitute (fst iter) (snd iter) e') replacement e"

definition rebuild_ops :: "AssociativePattern \<Rightarrow> Expr list \<Rightarrow> (Expr \<times> Expr) list \<Rightarrow> AssociativeOp
    \<Rightarrow> AssociativeOp" where
  "rebuild_ops p exprs replacement assoc_op =
     fold (\<lambda>index a.
             set_identity index (identities p ! index)
               (set_op index (Some (substitute_all replacement (exprs ! index))) a))
       [0..<length exprs] assoc_op"

text \<open>
  The pairs as the spec words them: all bindings substituted in a single simultaneous pass. A
  node equal to one of the expressions to find is replaced by its partner and not looked into
  again; any other node is rebuilt from its children.
\<close>

fun substitute_simultaneous :: "(Expr \<times> Expr) list \<Rightarrow> Expr \<Rightarrow> Expr"
  and substitute_simultaneous_list :: "(Expr \<times> Expr) list \<Rightarrow> Expr list \<Rightarrow> Expr list" where
  "substitute_simultaneous r (Cast t a) =
     (case map_of r (Cast t a) of Some v \<Rightarrow> v
      | None \<Rightarrow> Cast t (substitute_simultaneous r a))"
| "substitute_simultaneous r (Bin b a c) =
     (case map_of r (Bin b a c) of Some v \<Rightarrow> v
      | None \<Rightarrow> Bin b (substitute_simultaneous r a) (substitute_simultaneous r c))"
| "substitute_simultaneous r (Not_op a) =
     (case map_of r (Not_op a) of Some v \<Rightarrow> v
      | None \<Rightarrow> Not_op (substitute_simultaneous r a))"
| "substitute_simultaneous r (Select c t f) =
     (case map_of r (Select c t f) of Some v \<Rightarrow> v
      | None \<Rightarrow> Select (substitute_simultaneous r c) (substitute_simultaneous r t)
                  (substitute_simultaneous r f))"
| "substitute_simultaneous r (Let_expr n v b) =
     (case map_of r (Let_expr n v b) of Some w \<Rightarrow> w
      | None \<Rightarrow> Let_expr n (substitute_simultaneous r v) (substitute_simultaneous r b))"
| "substitute_simultaneous r (Call t name cargs ct fdef vi) =
     (case map_of r (Call t name cargs ct fdef vi) of Some v \<Rightarrow> v
      | None \<Rightarrow> Call t name (substitute_simultaneous_list r cargs) ct fdef vi)"
| "substitute_simultaneous r e = (case map_of r e of Some v \<Rightarrow> v | None \<Rightarrow> e)"
| "substitute_simultaneous_list r [] = []"
| "substitute_simultaneous_list r (a # as) =
     substitute_simultaneous r a # substitute_simultaneous_list r as"

text \<open>
  The loop over the table. An entry whose size differs from the number of names violates an
  assertion. An entry that fails to match, or that leaves a \<^verbatim>\<open>y<index>\<close> unbound, is skipped;
  where matching an entry stops the process, so does the loop.
\<close>

fun find_match_loop :: "externals \<Rightarrow> AssociativePattern list \<Rightarrow> string list \<Rightarrow> string list
    \<Rightarrow> Expr option list \<Rightarrow> Expr list \<Rightarrow> AssociativeOp \<Rightarrow> (bool \<times> AssociativeOp) outcome" where
  "find_match_loop ext [] x_names y_names x_parts exprs assoc_op = Returned (False, assoc_op)"
| "find_match_loop ext (p # table) x_names y_names x_parts exprs assoc_op =
     (if length (ops p) \<noteq> length x_names then Aborted
      else case match_ops ext exprs (ops p) x_names y_names [0..<length (ops p)] [] of
        Diverged \<Rightarrow> Diverged
      | Aborted \<Rightarrow> Aborted
      | Returned None \<Rightarrow> find_match_loop ext table x_names y_names x_parts exprs assoc_op
      | Returned (Some pattern_match) \<Rightarrow>
         (case collect_replacement pattern_match x_names y_names x_parts
                 [0..<length y_names] assoc_op [] of
            (False, assoc_op', replacement) \<Rightarrow>
              find_match_loop ext table x_names y_names x_parts exprs assoc_op'
          | (True, assoc_op', replacement) \<Rightarrow>
              Returned (True, rebuild_ops p exprs replacement assoc_op')))"

definition find_match :: "externals \<Rightarrow> AssociativePattern list \<Rightarrow> string list \<Rightarrow> string list
    \<Rightarrow> Expr option list \<Rightarrow> Expr list \<Rightarrow> AssociativeOp \<Rightarrow> (bool \<times> AssociativeOp) outcome" where
  "find_match ext table x_names y_names x_parts exprs assoc_op =
     (if length x_names \<noteq> length y_names \<or> length x_names \<noteq> length x_parts
         \<or> length x_names \<noteq> length exprs \<or> length x_names \<noteq> length (ops (pattern assoc_op))
      then Aborted
      else find_match_loop ext table x_names y_names x_parts exprs assoc_op)"

section \<open>The single-element extractor\<close>

text \<open>
  \<^verbatim>\<open>visit_associative_binary_op<T>\<close>: the template argument is the tag \<open>T\<close>. The result is
  the pair (associative, commutative) and the updated result value.
\<close>

definition visit_associative_binary_op :: "BinaryOp \<Rightarrow> nat \<Rightarrow> string \<Rightarrow> string \<Rightarrow> Expr option
    \<Rightarrow> Expr \<Rightarrow> Expr \<Rightarrow> AssociativeOp \<Rightarrow> (bool \<times> bool) \<times> AssociativeOp" where
  "visit_associative_binary_op T index op_x op_y x_part' lhs rhs assoc_op =
     (if (case lhs of Variable t n \<Rightarrow> n \<noteq> op_x | _ \<Rightarrow> True) then ((False, False), assoc_op)
      else if expr_uses_var rhs op_x then ((False, False), assoc_op)
      else
        let assoc_op' = set_y index \<lparr>var = op_y, expr = Some rhs\<rparr>
                          (set_x index \<lparr>var = op_x, expr = x_part'\<rparr> assoc_op)
        in if T = Sub then ((True, False), assoc_op') else ((True, True), assoc_op'))"

text \<open>
  The operator and the identity that each branch of the \<^verbatim>\<open>if\<close> chain writes before it
  calls \<^verbatim>\<open>visit_associative_binary_op\<close>; \<^const>\<open>None\<close> for a node class the chain does not list.
\<close>

definition builtin_pattern :: "externals \<Rightarrow> BinaryOp \<Rightarrow> Type \<Rightarrow> Expr \<Rightarrow> Expr \<Rightarrow> (Expr \<times> Expr) option" where
  "builtin_pattern ext b t x y =
     (case b of
        Add \<Rightarrow> Some (Bin Add x y, make_const ext t 0)
      | Sub \<Rightarrow> Some (Bin Add x y, make_const ext t 0)
      | Mul \<Rightarrow> Some (Bin Mul x y, make_const ext t 1)
      | Min_op \<Rightarrow> Some (Bin Min_op x y, type_max ext t)
      | Max_op \<Rightarrow> Some (Bin Max_op x y, type_min ext t)
      | And \<Rightarrow> Some (Bin And x y, make_const ext t 1)
      | Or \<Rightarrow> Some (Bin Or x y, make_const ext t 0)
      | _ \<Rightarrow> None)"

text \<open>The \<^verbatim>\<open>if\<close> chain itself; a \<^verbatim>\<open>Let\<close> is an \<^verbatim>\<open>internal_error\<close>.\<close>

definition builtin_op :: "externals \<Rightarrow> nat \<Rightarrow> string \<Rightarrow> string \<Rightarrow> Expr option \<Rightarrow> Expr
    \<Rightarrow> AssociativeOp \<Rightarrow> ((bool \<times> bool) \<times> AssociativeOp) outcome" where
  "builtin_op ext index op_x op_y x_part' e assoc_op =
     (let t = type_of e; x = Variable t op_x; y = Variable t op_y in
      case e of
        Bin b lhs rhs \<Rightarrow>
          (case builtin_pattern ext b t x y of
             Some (op, identity) \<Rightarrow>
               Returned (visit_associative_binary_op b index op_x op_y x_part' lhs rhs
                           (set_identity index (Some identity) (set_op index (Some op) assoc_op)))
           | None \<Rightarrow> Returned ((False, False), assoc_op))
      | Let_expr n v b \<Rightarrow> Aborted
      | _ \<Rightarrow> Returned ((False, False), assoc_op))"

text \<open>The look-up in the table for one element, and the copy of what it found.\<close>

definition table_lookup :: "externals \<Rightarrow> nat \<Rightarrow> string \<Rightarrow> string \<Rightarrow> Expr option \<Rightarrow> Expr
    \<Rightarrow> bool \<Rightarrow> AssociativeOp \<Rightarrow> ((bool \<times> bool) \<times> AssociativeOp) outcome" where
  "table_lookup ext index op_x op_y x_part' e is_commutative' assoc_op =
     (case find_match ext (get_ops_table ext [e]) [op_x] [op_y] [x_part'] [e]
             (AssociativeOp_sized 1) of
        Diverged \<Rightarrow> Diverged
      | Aborted \<Rightarrow> Aborted
      | Returned (False, tmp) \<Rightarrow> Returned ((False, is_commutative'), assoc_op)
      | Returned (True, tmp) \<Rightarrow>
          Returned ((True, is_commutative'),
            set_y index (ys tmp ! 0)
              (set_x index (xs tmp ! 0)
                (set_identity index (identities (pattern tmp) ! 0)
                  (set_op index (ops (pattern tmp) ! 0) assoc_op)))))"

definition extract_associative_op_single_element :: "externals \<Rightarrow> nat \<Rightarrow> string list \<Rightarrow> string list
    \<Rightarrow> Expr option \<Rightarrow> Expr \<Rightarrow> AssociativeOp \<Rightarrow> ((bool \<times> bool) \<times> AssociativeOp) outcome" where
  "extract_associative_op_single_element ext index x_names y_names x_part' e assoc_op =
     (let t = type_of e; op_x = x_names ! index; op_y = y_names ! index;
          y = Variable t op_y
      in
      if x_part' = None then
        Returned ((True, False),
          set_y index \<lparr>var = op_y, expr = Some e\<rparr>
            (set_x index \<lparr>var = [], expr = None\<rparr>
              (set_identity index (Some (make_const ext t 0))
                (set_op index (Some y) assoc_op))))
      else
        case builtin_op ext index op_x op_y x_part' e assoc_op of
          Diverged \<Rightarrow> Diverged
        | Aborted \<Rightarrow> Aborted
        | Returned ((is_associative', is_commutative'), assoc_op') \<Rightarrow>
            if \<not> is_associative' \<and> code t = TInt \<and> bits t = 32
            then table_lookup ext index op_x op_y x_part' e is_commutative' assoc_op'
            else Returned ((is_associative', is_commutative'), assoc_op'))"

section \<open>The dependency graph of a tuple-valued update\<close>

text \<open>
  The prover keeps, for every tuple index, the set of tuple indices whose self-reference the
  element mentions: a \<^verbatim>\<open>vector<set<int>>\<close>. The vector is a list, a \<^verbatim>\<open>std::set<int>\<close> of
  tuple indices is a set of naturals; where the source iterates over such a set it does so in
  ascending order, which is \<^const>\<open>sorted_list_of_set\<close>.
\<close>

subsection \<open>add_transitive_dependencies\<close>

text \<open>
  The body of the innermost loop: \<^verbatim>\<open>idx\<close> ranges over \<^verbatim>\<open>dependencies[j]\<close> and is inserted
  into \<^verbatim>\<open>dependencies[i]\<close> when it is missing there. The state is the vector together with the
  flag \<^verbatim>\<open>change\<close>; the insertion branch assigns \<^verbatim>\<open>false\<close> to the flag, as the source does.
\<close>

definition insert_missing :: "nat \<Rightarrow> nat \<Rightarrow> nat set list \<times> bool \<Rightarrow> nat set list \<times> bool" where
  "insert_missing i idx st =
     (let (dependencies, change) = st in
      if idx \<notin> dependencies ! i
      then (dependencies[i := insert idx (dependencies ! i)], False)
      else st)"

text \<open>The body of the loop over \<^verbatim>\<open>j\<close> for a fixed \<^verbatim>\<open>i\<close>.\<close>

definition atd_inner :: "nat \<Rightarrow> nat \<Rightarrow> nat set list \<times> bool \<Rightarrow> nat set list \<times> bool" where
  "atd_inner i j st =
     (let (dependencies, change) = st in
      if i = j then st
      else if j \<in> dependencies ! i
      then fold (insert_missing i) (sorted_list_of_set (dependencies ! j)) st
      else st)"

text \<open>
  One execution of the body of the \<^verbatim>\<open>while\<close> loop: the flag is cleared, then both
  \<^verbatim>\<open>for\<close> loops run over \<^verbatim>\<open>0 .. dependencies.size() - 1\<close>.
\<close>

definition atd_pass :: "nat set list \<Rightarrow> nat set list \<times> bool" where
  "atd_pass dependencies =
     fold (\<lambda>i st. fold (atd_inner i) [0..<length dependencies] st)
       [0..<length dependencies] (dependencies, False)"

text \<open>
  The \<^verbatim>\<open>while (change)\<close> loop. Nothing bounds the number of rounds syntactically, so the
  loop is a partial function: not returning is the value \<^const>\<open>None\<close>.
\<close>

partial_function (option) atd_while :: "nat set list \<times> bool \<Rightarrow> nat set list option" where
  "atd_while st = (if snd st then atd_while (atd_pass (fst st)) else Some (fst st))"

declare atd_while.simps [code]

definition add_transitive_dependencies :: "nat set list \<Rightarrow> nat set list option" where
  "add_transitive_dependencies dependencies = atd_while (dependencies, True)"

text \<open>The edges of the dependency graph, and the indices reachable from \<open>i\<close> along them.\<close>

definition edges :: "nat set list \<Rightarrow> (nat \<times> nat) set" where
  "edges dependencies = {(i, j). i < length dependencies \<and> j \<in> dependencies ! i}"

definition reach :: "nat set list \<Rightarrow> nat \<Rightarrow> nat set" where
  "reach dependencies i = {j. (i, j) \<in> (edges dependencies)\<^sup>+}"

subsection \<open>compute_subgraphs\<close>

text \<open>
  The loop over \<^verbatim>\<open>j\<close> with its \<^verbatim>\<open>break\<close>: \<^verbatim>\<open>should_remove\<close> ends true exactly when some
  \<^verbatim>\<open>j\<close> passes the three guards of the \<^verbatim>\<open>continue\<close> and the set difference is empty.
  \<^verbatim>\<open>subgraphs\<close> is the output vector as it stands when index \<^verbatim>\<open>i\<close> is examined.
\<close>

definition should_remove :: "nat set list \<Rightarrow> nat set list \<Rightarrow> nat \<Rightarrow> bool" where
  "should_remove dependencies subgraphs i =
     list_ex (\<lambda>j.
        \<not> (i = j \<or> card (dependencies ! i) > card (dependencies ! j)
              \<or> (j < i \<and> subgraphs ! i = {}))
        \<and> dependencies ! i - dependencies ! j = {})
       [0..<length dependencies]"

definition subgraph_step :: "nat set list \<Rightarrow> nat \<Rightarrow> nat set list \<Rightarrow> nat set list" where
  "subgraph_step dependencies i subgraphs =
     (let current = dependencies ! i in
      if current = {} then subgraphs
      else if should_remove dependencies subgraphs i then subgraphs
      else subgraphs[i := current])"

definition compute_subgraphs :: "nat set list \<Rightarrow> nat set list" where
  "compute_subgraphs dependencies =
     fold (subgraph_step dependencies) [0..<length dependencies]
       (replicate (length dependencies) {})"

section \<open>prove_associativity\<close>

text \<open>
  \<^verbatim>\<open>get_subvector\<close>: the entries of \<open>v\<close> at the indices of the set, in ascending order; an
  index outside the vector violates the assertion.
\<close>

definition get_subvector :: "'a list \<Rightarrow> nat set \<Rightarrow> 'a list outcome" where
  "get_subvector v indices =
     (if list_all (\<lambda>index. index < length v) (sorted_list_of_set indices)
      then Returned (map (\<lambda>index. v ! index) (sorted_list_of_set indices))
      else Aborted)"

text \<open>
  A \<^verbatim>\<open>for\<close> loop whose body may return from the enclosing function: the body yields
  \<open>Inl r\<close> to return \<open>r\<close>, or \<open>Inr s\<close> to go on with the state \<open>s\<close>.
\<close>

fun for_loop :: "(nat \<Rightarrow> 's \<Rightarrow> 'r + 's) \<Rightarrow> nat list \<Rightarrow> 's \<Rightarrow> 'r + 's" where
  "for_loop body [] s = Inr s"
| "for_loop body (i # rest) s =
     (case body i s of Inl r \<Rightarrow> Inl r | Inr s' \<Rightarrow> for_loop body rest s')"

text \<open>What the first loop does to an element before the rewriter sees it.\<close>

definition prepare_expr :: "externals \<Rightarrow> Expr \<Rightarrow> Expr" where
  "prepare_expr ext e =
     substitute_in_all_lets ext (common_subexpression_elimination ext (simplify ext e))"

text \<open>
  The body of the first loop, for the tuple index \<open>idx\<close>. The state is what the loop updates:
  the expressions, the \<open>x\<close> parts, the dependency sets and the flag \<^verbatim>\<open>all_independent\<close>. An
  undefined expression handed on to the external functions stops the process.
\<close>

type_synonym prover_state = "Expr list \<times> Expr option list \<times> nat set list \<times> bool"

definition convert_element :: "externals \<Rightarrow> string \<Rightarrow> Expr list \<Rightarrow> string list \<Rightarrow> nat \<Rightarrow> prover_state
    \<Rightarrow> AssociativeOp outcome + prover_state" where
  "convert_element ext f lhs_args x_names idx st =
     (let (exprs, x_parts, dependencies, all_independent) = st;
          op_x = x_names ! idx;
          e1 = prepare_expr ext (exprs ! idx);
          (e2, csr) = mutate e1 (ConvertSelfRef_init f lhs_args idx x_names)
      in
      if assert_failed csr then Inl Aborted
      else if \<not> is_solvable csr then Inl (Returned AssociativeOp_default)
      else
        case e2 of
          None \<Rightarrow> Inl Aborted
        | Some e2' \<Rightarrow>
            let all_independent' = (if x_dependencies csr \<noteq> {} then False else all_independent);
                x_parts' = x_parts[idx := x_part csr];
                dependencies' = dependencies[idx :=
                   (if x_part csr \<noteq> None then insert idx (x_dependencies csr)
                    else x_dependencies csr)];
                e3 = substitute_in_all_lets ext
                       (solve_expression ext
                          (simplify ext (common_subexpression_elimination ext e2')) op_x)
            in Inr (exprs[idx := e3], x_parts', dependencies', all_independent'))"

text \<open>The body of the loop that proves each element on its own.\<close>

definition prove_element :: "externals \<Rightarrow> string list \<Rightarrow> string list \<Rightarrow> Expr option list \<Rightarrow> Expr list
    \<Rightarrow> nat \<Rightarrow> AssociativeOp \<Rightarrow> AssociativeOp outcome + AssociativeOp" where
  "prove_element ext x_names y_names x_parts exprs idx assoc_op =
     (case extract_associative_op_single_element ext idx x_names y_names (x_parts ! idx)
             (exprs ! idx) assoc_op of
        Diverged \<Rightarrow> Inl Diverged
      | Aborted \<Rightarrow> Inl Aborted
      | Returned ((is_associative', is_commutative'), assoc_op') \<Rightarrow>
          if \<not> is_associative' then Inl (Returned AssociativeOp_default) else Inr assoc_op')"

text \<open>
  The loop that copies the result of one subgraph into the result of the tuple; \<open>j\<close> is the
  position of \<open>index\<close> in the subgraph. \<^const>\<open>None\<close> is a conflict with an earlier subgraph.
\<close>

fun merge_subgraph :: "(nat \<times> nat) list \<Rightarrow> AssociativeOp \<Rightarrow> AssociativeOp \<Rightarrow> AssociativeOp option" where
  "merge_subgraph [] sub_assoc_op assoc_op = Some assoc_op"
| "merge_subgraph ((index, j) # rest) sub_assoc_op assoc_op =
     (if ops (pattern assoc_op) ! index \<noteq> None
         \<and> (ops (pattern assoc_op) ! index \<noteq> ops (pattern sub_assoc_op) ! j
              \<or> identities (pattern assoc_op) ! index \<noteq> identities (pattern sub_assoc_op) ! j)
      then None
      else if expr (xs assoc_op ! index) \<noteq> None \<and> xs assoc_op ! index \<noteq> xs sub_assoc_op ! j
      then None
      else if expr (ys assoc_op ! index) \<noteq> None \<and> ys assoc_op ! index \<noteq> ys sub_assoc_op ! j
      then None
      else merge_subgraph rest sub_assoc_op
             (set_y index (ys sub_assoc_op ! j)
               (set_x index (xs sub_assoc_op ! j)
                 (set_identity index (identities (pattern sub_assoc_op) ! j)
                   (set_op index (ops (pattern sub_assoc_op) ! j) assoc_op)))))"

text \<open>The body of the loop over the subgraphs.\<close>

definition prove_subgraph :: "externals \<Rightarrow> string list \<Rightarrow> string list \<Rightarrow> Expr option list \<Rightarrow> Expr list
    \<Rightarrow> nat set list \<Rightarrow> nat \<Rightarrow> AssociativeOp \<Rightarrow> AssociativeOp outcome + AssociativeOp" where
  "prove_subgraph ext x_names y_names x_parts exprs subgraphs i assoc_op =
     (let indices = subgraphs ! i in
      if indices = {} then Inr assoc_op
      else if card indices > 2 then Inl (Returned AssociativeOp_default)
      else
        case (get_subvector exprs indices, get_subvector x_names indices,
              get_subvector y_names indices, get_subvector x_parts indices) of
          (Returned sub_exprs, Returned sub_op_x_names, Returned sub_op_y_names,
           Returned sub_x_parts) \<Rightarrow>
            (case find_match ext (get_ops_table ext sub_exprs) sub_op_x_names sub_op_y_names
                    sub_x_parts sub_exprs (AssociativeOp_sized (length sub_exprs)) of
               Diverged \<Rightarrow> Inl Diverged
             | Aborted \<Rightarrow> Inl Aborted
             | Returned (False, sub_assoc_op) \<Rightarrow> Inl (Returned AssociativeOp_default)
             | Returned (True, sub_assoc_op) \<Rightarrow>
                 (case merge_subgraph
                         (zip (sorted_list_of_set indices) [0..<card indices])
                         sub_assoc_op assoc_op of
                    None \<Rightarrow> Inl (Returned AssociativeOp_default)
                  | Some assoc_op' \<Rightarrow> Inr assoc_op'))
        | _ \<Rightarrow> Inl Aborted)"

text \<open>The end of the function: an early return stands, otherwise the flag is set.\<close>

definition finish :: "AssociativeOp outcome + AssociativeOp \<Rightarrow> AssociativeOp outcome" where
  "finish r = (case r of Inl early \<Rightarrow> early
                | Inr assoc_op \<Rightarrow> Returned (assoc_op\<lparr>is_associative := True\<rparr>))"

definition canonical_arg :: "externals \<Rightarrow> Expr \<Rightarrow> Expr" where
  "canonical_arg ext arg =
     substitute_in_all_lets ext (simplify ext (common_subexpression_elimination ext arg))"

text \<open>
  \<^verbatim>\<open>prove_associativity\<close> once the fresh names are drawn. The first loop runs from the last
  tuple index down to the first.
\<close>

definition prove_with_names :: "externals \<Rightarrow> string \<Rightarrow> Expr list \<Rightarrow> Expr list \<Rightarrow> string list
    \<Rightarrow> string list \<Rightarrow> AssociativeOp outcome" where
  "prove_with_names ext f lhs_args exprs x_names y_names =
     (let n = length exprs;
          assoc_op = AssociativeOp_sized n
      in
      case for_loop (convert_element ext f (map (canonical_arg ext) lhs_args) x_names)
             (rev [0..<n]) (exprs, replicate n None, replicate n {}, True) of
        Inl early \<Rightarrow> early
      | Inr (exprs', x_parts, dependencies, all_independent) \<Rightarrow>
         (case add_transitive_dependencies dependencies of
            None \<Rightarrow> Diverged
          | Some dependencies' \<Rightarrow>
              if all_independent \<or> n = 1
              then finish (for_loop (prove_element ext x_names y_names x_parts exprs')
                             [0..<n] assoc_op)
              else
                let subgraphs = compute_subgraphs dependencies' in
                if length subgraphs \<noteq> n then Aborted
                else finish (for_loop
                               (prove_subgraph ext x_names y_names x_parts exprs' subgraphs)
                               [0..<length subgraphs] assoc_op)))"

text \<open>
  The loop that draws the names. Modelled from the spec: \<^verbatim>\<open>unique_name(prefix)\<close> is a fresh
  identifier generator with process-wide state. The generator is a parameter: a function from
  a prefix and the state of the generator to a name and the next state.
\<close>

fun fresh_names :: "(string \<Rightarrow> 'g \<Rightarrow> string \<times> 'g) \<Rightarrow> nat list \<Rightarrow> 'g
    \<Rightarrow> (string list \<times> string list) \<times> 'g" where
  "fresh_names unique_name [] g = (([], []), g)"
| "fresh_names unique_name (idx # rest) g =
     (let (op_x, g1) = unique_name (''_x_'' @ to_string idx) g;
          (op_y, g2) = unique_name (''_y_'' @ to_string idx) g1;
          ((x_names, y_names), g3) = fresh_names unique_name rest g2
      in ((op_x # x_names, op_y # y_names), g3))"

definition prove_associativity :: "externals \<Rightarrow> (string \<Rightarrow> 'g \<Rightarrow> string \<times> 'g) \<Rightarrow> string \<Rightarrow> Expr list
    \<Rightarrow> Expr list \<Rightarrow> 'g \<Rightarrow> AssociativeOp outcome \<times> 'g" where
  "prove_associativity ext unique_name f lhs_args exprs g =
     (let ((x_names, y_names), g') = fresh_names unique_name [0..<length exprs] g
      in (prove_with_names ext f lhs_args exprs x_names y_names, g'))"

section \<open>An instance of the external collaborators\<close>

text \<open>
  Modelled from the spec: an instance of the collaborators on which the prover can be run. The
  simplifier, the elimination of common subexpressions and the substitution of lets return
  their argument, and the solver reports failure, which leaves the expression unchanged. The
  constants are those of the signed integer types. The generator of names is a counter.
\<close>

definition counter_name :: "string \<Rightarrow> nat \<Rightarrow> string \<times> nat" where
  "counter_name prefix g = (prefix @ ''$'' @ to_string g, Suc g)"

text \<open>
  Modelled from the spec: the wildcard matcher. A variable of the pattern whose name is \<open>x\<close> or
  \<open>y\<close> followed by digits is a wildcard: it binds the expression it meets, and where it is
  bound already the expression must be equal to the binding. Everything else must match
  structurally.
\<close>

definition is_wildcard :: "string \<Rightarrow> bool" where
  "is_wildcard name =
     (case name of
        [] \<Rightarrow> False
      | c # ds \<Rightarrow> (c = CHR ''x'' \<or> c = CHR ''y'') \<and> ds \<noteq> []
                  \<and> list_all (\<lambda>d. d \<in> set ''0123456789'') ds)"

fun match_expr :: "Expr \<Rightarrow> Expr \<Rightarrow> (string \<times> Expr) list \<Rightarrow> (string \<times> Expr) list option"
  and match_exprs :: "Expr list \<Rightarrow> Expr list \<Rightarrow> (string \<times> Expr) list
    \<Rightarrow> (string \<times> Expr) list option" where
  "match_expr (Variable t n) e m =
     (if is_wildcard n then
        (case map_of m n of
           None \<Rightarrow> Some (m @ [(n, e)])
         | Some e' \<Rightarrow> if e' = e then Some m else None)
      else if e = Variable t n then Some m else None)"
| "match_expr (Cast t a) e m =
     (case e of Cast t' a' \<Rightarrow> if t = t' then match_expr a a' m else None | _ \<Rightarrow> None)"
| "match_expr (Bin b a c) e m =
     (case e of
        Bin b' a' c' \<Rightarrow>
          if b = b' then
            (case match_expr a a' m of None \<Rightarrow> None | Some m1 \<Rightarrow> match_expr c c' m1)
          else None
      | _ \<Rightarrow> None)"
| "match_expr (Not_op a) e m = (case e of Not_op a' \<Rightarrow> match_expr a a' m | _ \<Rightarrow> None)"
| "match_expr (Select c t f) e m =
     (case e of
        Select c' t' f' \<Rightarrow>
          (case match_expr c c' m of
             None \<Rightarrow> None
           | Some m1 \<Rightarrow>
              (case match_expr t t' m1 of None \<Rightarrow> None | Some m2 \<Rightarrow> match_expr f f' m2))
      | _ \<Rightarrow> None)"
| "match_expr (Let_expr n v b) e m =
     (case e of
        Let_expr n' v' b' \<Rightarrow>
          if n = n' then
            (case match_expr v v' m of None \<Rightarrow> None | Some m1 \<Rightarrow> match_expr b b' m1)
          else None
      | _ \<Rightarrow> None)"
| "match_expr (Call t name cargs ct fdef vi) e m =
     (case e of
        Call t' name' cargs' ct' fdef' vi' \<Rightarrow>
          if t = t' \<and> name = name' \<and> ct = ct' \<and> fdef = fdef' \<and> vi = vi'
          then match_exprs cargs cargs' m else None
      | _ \<Rightarrow> None)"
| "match_expr p e m = (if p = e then Some m else None)"
| "match_exprs [] es m = (if es = [] then Some m else None)"
| "match_exprs (p # ps) es m =
     (case es of
        [] \<Rightarrow> None
      | e # es' \<Rightarrow>
          (case match_expr p e m of None \<Rightarrow> None | Some m1 \<Rightarrow> match_exprs ps es' m1))"

definition expr_match_model :: "Expr \<Rightarrow> Expr \<Rightarrow> (string \<times> Expr) list option" where
  "expr_match_model p e = match_expr p e []"

text \<open>
  Modelled from the spec: the table for tuples of two signed 32-bit integers holds the two
  patterns that the prover's own tests expect for complex multiplication and for argmin, with
  their identities; no pattern is assumed for any other arity.
\<close>

definition i32 :: Type where
  "i32 = Type TInt 32 1"

definition complex_mul_pattern :: AssociativePattern where
  "complex_mul_pattern =
     \<lparr>ops = [Some (Bin Sub (Bin Mul (Variable i32 ''x0'') (Variable i32 ''y0''))
                           (Bin Mul (Variable i32 ''x1'') (Variable i32 ''y1''))),
             Some (Bin Add (Bin Mul (Variable i32 ''x1'') (Variable i32 ''y0''))
                           (Bin Mul (Variable i32 ''x0'') (Variable i32 ''y1'')))],
      identities = [Some (IntImm i32 1), Some (IntImm i32 0)],
      is_commutative = True\<rparr>"

definition argmin_pattern :: AssociativePattern where
  "argmin_pattern =
     \<lparr>ops = [Some (Bin Min_op (Variable i32 ''x0'') (Variable i32 ''y0'')),
             Some (Select (Bin LT (Variable i32 ''x0'') (Variable i32 ''y0''))
                     (Variable i32 ''x1'') (Variable i32 ''y1''))],
      identities = [Some (IntImm i32 (2 ^ 31 - 1)), Some (IntImm i32 0)],
      is_commutative = True\<rparr>"

definition test_externals :: externals where
  "test_externals =
     \<lparr>simplify = (\<lambda>e. e),
      common_subexpression_elimination = (\<lambda>e. e),
      substitute_in_all_lets = (\<lambda>e. e),
      solve_expression = (\<lambda>e v. e),
      expr_match = expr_match_model,
      get_ops_table = (\<lambda>exprs. if length exprs = 2 then [complex_mul_pattern, argmin_pattern]
                                else []),
      make_const = (\<lambda>t v. IntImm t v),
      type_max = (\<lambda>t. IntImm t (2 ^ (bits t - 1) - 1)),
      type_min = (\<lambda>t. IntImm t (- (2 ^ (bits t - 1))))\<rparr>"

section \<open>Expressions of the prover's own tests\<close>

text \<open>
  The left-hand side argument \<open>x\<close>, the self-reference \<open>f(x)[vi]\<close> and the call \<open>g(rx)[vi]\<close>
  with which the tests of the prover build their updates.
\<close>

definition lhs_x :: Expr where
  "lhs_x = Variable i32 ''x''"

definition call_f :: "nat \<Rightarrow> Expr" where
  "call_f vi = Call i32 ''f'' [lhs_x] Halide False vi"

definition call_g :: "nat \<Rightarrow> Expr" where
  "call_g vi = Call i32 ''g'' [Variable i32 ''rx''] Halide False vi"

text \<open>The prover returned, and what it returned claims associativity.\<close>

definition associative_outcome :: "AssociativeOp outcome \<Rightarrow> bool" where
  "associative_outcome r = (case r of Returned a \<Rightarrow> is_associative a | _ \<Rightarrow> False)"





definition var_rx :: Expr where "var_rx = Variable i32 ''rx''"

section \<open>Notions used to state the properties\<close>

text \<open>
  Modelled from the spec: the negation of an expression, \<open>-rhs\<close>, as zero of its type minus
  the expression.
\<close>

definition negate :: "externals \<Rightarrow> Expr \<Rightarrow> Expr" where
  "negate ext e = Bin Sub (make_const ext (type_of e) 0) e"


text \<open>The pair that the collecting loop builds from the binding of the wildcard \<open>y<index>\<close>.\<close>

definition y_replacement :: "(string \<times> Expr) list \<Rightarrow> string list \<Rightarrow> nat \<Rightarrow> Expr \<times> Expr" where
  "y_replacement pattern_match y_names index =
     (let y_part = the (map_of pattern_match (''y'' @ to_string index))
      in (y_part, Variable (type_of y_part) (y_names ! index)))"


text \<open>All four vectors of a result have \<open>n\<close> entries.\<close>

definition sized :: "nat \<Rightarrow> AssociativeOp \<Rightarrow> bool" where
  "sized n a = (length (ops (pattern a)) = n \<and> length (identities (pattern a)) = n
                \<and> length (xs a) = n \<and> length (ys a) = n)"

text \<open>The rewriter after it has run over the prepared element \<open>k\<close> of the update.\<close>

definition rewriter_state :: "externals \<Rightarrow> string \<Rightarrow> Expr list \<Rightarrow> string list \<Rightarrow> Expr list \<Rightarrow> nat
    \<Rightarrow> ConvertSelfRef" where
  "rewriter_state ext f lhs_args x_names exprs k =
     snd (mutate (prepare_expr ext (exprs ! k))
            (ConvertSelfRef_init f (map (canonical_arg ext) lhs_args) k x_names))"

text \<open>The names that \<^verbatim>\<open>prove_associativity\<close> draws for a tuple of \<open>n\<close> elements.\<close>

definition drawn_x_names :: "(string \<Rightarrow> 'g \<Rightarrow> string \<times> 'g) \<Rightarrow> nat \<Rightarrow> 'g \<Rightarrow> string list" where
  "drawn_x_names unique_name n g = fst (fst (fresh_names unique_name [0..<n] g))"

definition drawn_y_names :: "(string \<Rightarrow> 'g \<Rightarrow> string \<times> 'g) \<Rightarrow> nat \<Rightarrow> 'g \<Rightarrow> string list" where
  "drawn_y_names unique_name n g = snd (fst (fresh_names unique_name [0..<n] g))"

text \<open>
  The first loop of \<^verbatim>\<open>prove_associativity\<close>, over the tuple indices from the last down to the
  first: an early return, or the rewritten elements with their \<open>x\<close> parts, the dependencies
  and the flag \<^verbatim>\<open>all_independent\<close>.
\<close>

definition first_loop :: "externals \<Rightarrow> string \<Rightarrow> Expr list \<Rightarrow> string list \<Rightarrow> Expr list
    \<Rightarrow> AssociativeOp outcome + prover_state" where
  "first_loop ext f lhs_args x_names exprs =
     for_loop (convert_element ext f (map (canonical_arg ext) lhs_args) x_names)
       (rev [0..<length exprs])
       (exprs, replicate (length exprs) None, replicate (length exprs) {}, True)"

text \<open>
  The \<open>y\<close> replacement \<open>ry\<close> does not use the variable of the \<open>x\<close> replacement \<open>rx\<close>, where both
  have an expression.
\<close>

definition y_free_of_x :: "Replacement \<Rightarrow> Replacement \<Rightarrow> bool" where
  "y_free_of_x rx ry =
     (case (expr rx, expr ry) of
        (Some x_part', Some y_part) \<Rightarrow> \<not> expr_uses_var y_part (var rx)
      | _ \<Rightarrow> True)"

text \<open>At every index of a result, the \<open>y\<close> replacement is free of the \<open>x\<close> variable of that index.\<close>

definition y_independent :: "AssociativeOp \<Rightarrow> bool" where
  "y_independent a = list_all2 y_free_of_x (xs a) (ys a)"

text \<open>No binding of a wildcard \<open>y<j>\<close> in the match uses one of the names \<open>xn\<close>.\<close>

definition ok_match :: "string list \<Rightarrow> string list \<Rightarrow> (string \<times> Expr) list \<Rightarrow> bool" where
  "ok_match xn yn m =
     (\<forall>j<length yn. \<forall>y. map_of m (''y'' @ to_string j) = Some y \<longrightarrow> \<not> expr_uses_vars y xn)"

text \<open>
  The subgraphs over which \<^verbatim>\<open>prove_associativity\<close> runs its last loop; none where the first loop
  returns early and where every element is proved on its own.
\<close>

definition prover_subgraphs :: "externals \<Rightarrow> string \<Rightarrow> Expr list \<Rightarrow> string list \<Rightarrow> Expr list
    \<Rightarrow> nat set list" where
  "prover_subgraphs ext f lhs_args x_names exprs =
     (case first_loop ext f lhs_args x_names exprs of
        Inl early \<Rightarrow> []
      | Inr (es, x_parts, dependencies, all_independent) \<Rightarrow>
          if all_independent \<or> length exprs = 1 then []
          else case add_transitive_dependencies dependencies of
                 None \<Rightarrow> []
               | Some dependencies' \<Rightarrow> compute_subgraphs dependencies')"

text \<open>
  The tuple indices \<open>i\<close> and \<open>j\<close> are among the indices that the loop enumerates for one of the
  subgraphs, so that one call of \<^verbatim>\<open>find_match\<close> sees both.
\<close>

definition proved_together :: "nat set list \<Rightarrow> nat \<Rightarrow> nat \<Rightarrow> bool" where
  "proved_together subgraphs i j =
     list_ex (\<lambda>indices. i \<in> set (sorted_list_of_set indices)
                       \<and> j \<in> set (sorted_list_of_set indices)) subgraphs"

text \<open>
  For the indices \<open>i\<close> and \<open>j\<close> that the loop enumerates for the subgraph, the \<open>x\<close> replacement at
  \<open>j\<close> carries the name of \<open>j\<close> and the \<open>y\<close> replacement at \<open>i\<close> has an expression free of it.
\<close>

definition jointly_free :: "string list \<Rightarrow> AssociativeOp \<Rightarrow> nat set \<Rightarrow> bool" where
  "jointly_free xn a indices =
     (\<forall>i\<in>set (sorted_list_of_set indices). \<forall>j\<in>set (sorted_list_of_set indices).
        var (xs a ! j) = xn ! j
        \<and> (case expr (ys a ! i) of None \<Rightarrow> False | Some y \<Rightarrow> \<not> expr_uses_var y (xn ! j)))"

text \<open>A replacement is unset, with the empty name, or carries the name \<open>n\<close>.\<close>

definition name_kept :: "Replacement \<Rightarrow> string \<Rightarrow> bool" where
  "name_kept r n = (var r = [] \<or> var r = n)"

text \<open>Every replacement of a result is unset or carries the name of its index.\<close>

definition names_kept :: "string list \<Rightarrow> string list \<Rightarrow> AssociativeOp \<Rightarrow> bool" where
  "names_kept xn yn a = (list_all2 name_kept (xs a) xn \<and> list_all2 name_kept (ys a) yn)"

text \<open>The value the prover returned; the default value where it did not return.\<close>

definition result_of :: "AssociativeOp outcome \<Rightarrow> AssociativeOp" where
  "result_of r = (case r of Returned a \<Rightarrow> a | _ \<Rightarrow> AssociativeOp_default)"

section \<open>Values of integer expressions\<close>








text \<open>
  The operators that the chain of the single-element extractor writes: one of the six binary
  nodes over the variables \<open>x\<close> and \<open>y\<close>, or the variable \<open>y\<close> alone.
\<close>

fun builtin_operator :: "Expr \<Rightarrow> string \<Rightarrow> string \<Rightarrow> bool" where
  "builtin_operator (Bin b (Variable t n) (Variable t' n')) x y =
     (b \<in> {Add, Mul, Min_op, Max_op, And, Or} \<and> n = x \<and> n' = y)"
| "builtin_operator (Variable t n) x y = (n = y)"
| "builtin_operator op x y = False"

text \<open>The entry \<open>i\<close> of a result is unset or holds such an operator over its own variables.\<close>

definition entry_ok :: "AssociativeOp \<Rightarrow> nat \<Rightarrow> bool" where
  "entry_ok a i =
     (case ops (pattern a) ! i of
        None \<Rightarrow> True
      | Some op \<Rightarrow> builtin_operator op (var (xs a ! i)) (var (ys a ! i)))"




text \<open>
  All vectors of a result have \<open>n\<close> entries, and the entries at the indices that satisfy
  \<open>chain\<close> are unset or hold an operator that the chain writes.
\<close>

definition chain_entries :: "nat \<Rightarrow> (nat \<Rightarrow> bool) \<Rightarrow> AssociativeOp \<Rightarrow> bool" where
  "chain_entries n chain a = (sized n a \<and> (\<forall>i<n. chain i \<longrightarrow> entry_ok a i))"

section \<open>Properties of the dependency graph\<close>

subsection \<open>The closure loop runs exactly once\<close>

lemma insert_missing_flag: "\<not> snd st \<Longrightarrow> \<not> snd (insert_missing i idx st)"
  by (simp add: insert_missing_def split: prod.splits)

lemma fold_flag:
  assumes "\<And>x st. \<not> snd st \<Longrightarrow> \<not> snd (f x st)" and "\<not> snd st"
  shows "\<not> snd (fold f l st)"
  using assms(2) by (induction l arbitrary: st) (simp_all add: assms(1))

lemma atd_inner_flag: "\<not> snd st \<Longrightarrow> \<not> snd (atd_inner i j st)"
  by (simp add: atd_inner_def fold_flag insert_missing_flag split: prod.splits)

lemma atd_pass_flag: "\<not> snd (atd_pass dependencies)"
  unfolding atd_pass_def
  by (rule fold_flag) (simp_all add: fold_flag atd_inner_flag)

text \<open>
  The flag is false after every pass, whatever was inserted, so the \<^verbatim>\<open>while\<close> loop always
  returns, after one execution of its body.
\<close>

lemma add_transitive_dependencies_one_pass:
  "add_transitive_dependencies dependencies = Some (fst (atd_pass dependencies))"
proof -
  have "atd_while (atd_pass dependencies) = Some (fst (atd_pass dependencies))"
    by (subst atd_while.simps) (simp add: atd_pass_flag)
  then show ?thesis
    unfolding add_transitive_dependencies_def
    by (subst atd_while.simps) simp
qed

lemma chain_reach: "3 \<in> reach [{2}, {3}, {1}, {}] 0"
proof -
  let ?E = "edges [{2}, {3}, {1}, {}]"
  have "(0, 2) \<in> ?E" "(2, 1) \<in> ?E" "(1, 3) \<in> ?E"
    by (simp_all add: edges_def)
  then have "(0, 3) \<in> ?E\<^sup>+"
    by (meson trancl.r_into_trancl trancl_trans)
  then show ?thesis by (simp add: reach_def)
qed

text \<open>
  Claim C5 (every index reachable from \<open>i\<close> ends up in the dependency set of \<open>i\<close>) at the
  graph \<open>0 \<rightarrow> 2 \<rightarrow> 1 \<rightarrow> 3\<close>: the single pass adds \<open>1\<close> to the set of index \<open>0\<close> only after
  \<open>j = 1\<close> has been visited, so \<open>3\<close>, which is reachable from \<open>0\<close>, is never added.
\<close>

theorem atd_misses_reachable_index:
  "add_transitive_dependencies [{2}, {3}, {1}, {}] = Some [{1, 2}, {3}, {1, 3}, {}]
   \<and> 3 \<in> reach [{2}, {3}, {1}, {}] 0 \<and> 3 \<notin> ({1, 2} :: nat set)"
proof -
  have "atd_pass [{2}, {3}, {1}, {}] = ([{1, 2}, {3}, {1, 3}, {}], False)"
    by code_simp
  then have "add_transitive_dependencies [{2}, {3}, {1}, {}] = Some [{1, 2}, {3}, {1, 3}, {}]"
    by (simp add: add_transitive_dependencies_one_pass)
  moreover have "3 \<notin> ({1, 2} :: nat set)"
    by simp
  ultimately show ?thesis
    using chain_reach by (intro conjI)
qed

text \<open>
  Claim C6 (no retained subgraph is a proper subset of another reachability set, whatever the
  order of the two indices) at the vector \<open>[{0, 1}, {1}]\<close>: the set of index \<open>1\<close> is a proper
  subset of the set of index \<open>0\<close> and is retained, because an index \<open>j < i\<close> is never compared.
\<close>

theorem compute_subgraphs_keeps_proper_subset:
  "compute_subgraphs [{0, 1}, {1}] = [{0, 1}, {1}] \<and> ({1} :: nat set) \<subset> {0, 1}"
proof -
  have "compute_subgraphs [{0, 1}, {1}] = [{0, 1}, {1}]"
    by code_simp
  then show ?thesis by auto
qed

section \<open>Properties of the self-reference rewriter\<close>

subsection \<open>What a visit leaves unchanged\<close>

lemma visit_self_call_consts:
  "func (snd (visit_self_call t name cargs ct fdef vi s)) = func s
   \<and> args (snd (visit_self_call t name cargs ct fdef vi s)) = args s
   \<and> value_index (snd (visit_self_call t name cargs ct fdef vi s)) = value_index s
   \<and> op_x_names (snd (visit_self_call t name cargs ct fdef vi s)) = op_x_names s
   \<and> is_conditional (snd (visit_self_call t name cargs ct fdef vi s)) = is_conditional s
   \<and> mutator_expr (snd (visit_self_call t name cargs ct fdef vi s)) = mutator_expr s"
  by (simp add: visit_self_call_def Let_def)

lemma visit_self_call_unsolvable:
  "\<not> is_solvable s \<Longrightarrow> \<not> is_solvable (snd (visit_self_call t name cargs ct fdef vi s))"
  by (simp add: visit_self_call_def Let_def)

lemma assign_fields [simp]:
  "fst (assign e s) = Some e"
  "func (snd (assign e s)) = func s" "args (snd (assign e s)) = args s"
  "value_index (snd (assign e s)) = value_index s"
  "op_x_names (snd (assign e s)) = op_x_names s"
  "is_conditional (snd (assign e s)) = is_conditional s"
  "is_solvable (snd (assign e s)) = is_solvable s"
  "x_dependencies (snd (assign e s)) = x_dependencies s"
  "x_part (snd (assign e s)) = x_part s"
  "assert_failed (snd (assign e s)) = assert_failed s"
  "mutator_expr (snd (assign e s)) = Some e"
  by (simp_all add: assign_def)

lemma undefined_operand_fields [simp]:
  "fst (undefined_operand s) = None"
  "func (snd (undefined_operand s)) = func s" "args (snd (undefined_operand s)) = args s"
  "value_index (snd (undefined_operand s)) = value_index s"
  "op_x_names (snd (undefined_operand s)) = op_x_names s"
  "is_conditional (snd (undefined_operand s)) = is_conditional s"
  "is_solvable (snd (undefined_operand s)) = is_solvable s"
  "x_dependencies (snd (undefined_operand s)) = x_dependencies s"
  "x_part (snd (undefined_operand s)) = x_part s"
  "assert_failed (snd (undefined_operand s))"
  "mutator_expr (snd (undefined_operand s)) = mutator_expr s"
  by (simp_all add: undefined_operand_def)

lemma build1_fields [simp]:
  "func (snd (build1 mk a s)) = func s" "args (snd (build1 mk a s)) = args s"
  "value_index (snd (build1 mk a s)) = value_index s"
  "op_x_names (snd (build1 mk a s)) = op_x_names s"
  "is_conditional (snd (build1 mk a s)) = is_conditional s"
  "is_solvable (snd (build1 mk a s)) = is_solvable s"
  "x_dependencies (snd (build1 mk a s)) = x_dependencies s"
  "x_part (snd (build1 mk a s)) = x_part s"
  by (simp_all add: build1_def split: option.splits)

lemma build2_fields [simp]:
  "func (snd (build2 mk a c s)) = func s" "args (snd (build2 mk a c s)) = args s"
  "value_index (snd (build2 mk a c s)) = value_index s"
  "op_x_names (snd (build2 mk a c s)) = op_x_names s"
  "is_conditional (snd (build2 mk a c s)) = is_conditional s"
  "is_solvable (snd (build2 mk a c s)) = is_solvable s"
  "x_dependencies (snd (build2 mk a c s)) = x_dependencies s"
  "x_part (snd (build2 mk a c s)) = x_part s"
  by (simp_all add: build2_def split: option.splits)

lemma build3_fields [simp]:
  "func (snd (build3 mk a c d s)) = func s" "args (snd (build3 mk a c d s)) = args s"
  "value_index (snd (build3 mk a c d s)) = value_index s"
  "op_x_names (snd (build3 mk a c d s)) = op_x_names s"
  "is_conditional (snd (build3 mk a c d s)) = is_conditional s"
  "is_solvable (snd (build3 mk a c d s)) = is_solvable s"
  "x_dependencies (snd (build3 mk a c d s)) = x_dependencies s"
  "x_part (snd (build3 mk a c d s)) = x_part s"
  by (simp_all add: build3_def split: option.splits)

lemma build_defined [simp]:
  "build1 mk1 (Some a) s = assign (mk1 a) s"
  "build2 mk2 (Some a) (Some c) s = assign (mk2 a c) s"
  "build3 mk3 (Some a) (Some c) (Some d) s = assign (mk3 a c d) s"
  by (simp_all add: build1_def build2_def build3_def)

lemma build_assert [simp]:
  "assert_failed s \<Longrightarrow> assert_failed (snd (build1 mk1 a s))"
  "assert_failed s \<Longrightarrow> assert_failed (snd (build2 mk2 a c s))"
  "assert_failed s \<Longrightarrow> assert_failed (snd (build3 mk3 a c d s))"
  by (simp_all add: build1_def build2_def build3_def split: option.splits)

lemma build_call_consts [simp]:
  "func (snd (build_call t name cargs ct fdef vi s)) = func s"
  "args (snd (build_call t name cargs ct fdef vi s)) = args s"
  "value_index (snd (build_call t name cargs ct fdef vi s)) = value_index s"
  "op_x_names (snd (build_call t name cargs ct fdef vi s)) = op_x_names s"
  "is_conditional (snd (build_call t name cargs ct fdef vi s)) = is_conditional s"
  by (simp_all add: build_call_def split_beta visit_self_call_consts)

lemma build_call_unsolvable:
  "\<not> is_solvable s \<Longrightarrow> \<not> is_solvable (snd (build_call t name cargs ct fdef vi s))"
  by (simp add: build_call_def split_beta visit_self_call_unsolvable)

lemma build_call_defined:
  "list_all (\<lambda>a. a \<noteq> None) cargs \<Longrightarrow>
   build_call t name cargs ct fdef vi s
   = assign (fst (visit_self_call t name (map the cargs) ct fdef vi s))
       (snd (visit_self_call t name (map the cargs) ct fdef vi s))"
  by (simp add: build_call_def split_beta)

text \<open>Structural induction over expressions and their argument lists.\<close>

lemma expr_induct [case_names IntImm UIntImm FloatImm StringImm Variable Cast Bin Not_op
    Select Let_expr Call Nil Cons]:
  fixes P :: "Expr \<Rightarrow> bool" and Q :: "Expr list \<Rightarrow> bool"
  assumes "\<And>t v. P (IntImm t v)" "\<And>t v. P (UIntImm t v)" "\<And>t m e. P (FloatImm t m e)"
    "\<And>v. P (StringImm v)" "\<And>t n. P (Variable t n)"
    "\<And>t a. P a \<Longrightarrow> P (Cast t a)"
    "\<And>b a c. P a \<Longrightarrow> P c \<Longrightarrow> P (Bin b a c)"
    "\<And>a. P a \<Longrightarrow> P (Not_op a)"
    "\<And>c t f. P c \<Longrightarrow> P t \<Longrightarrow> P f \<Longrightarrow> P (Select c t f)"
    "\<And>n v b. P v \<Longrightarrow> P b \<Longrightarrow> P (Let_expr n v b)"
    "\<And>t name cargs ct fdef vi. Q cargs \<Longrightarrow> P (Call t name cargs ct fdef vi)"
    "Q []"
    "\<And>a as. P a \<Longrightarrow> Q as \<Longrightarrow> Q (a # as)"
  shows "P e" and "Q es"
proof -
  have p: "P e" for e
  proof (induction e)
    case (Call t name cargs ct fdef vi)
    have "Q cargs"
      using Call by (induction cargs) (auto intro: assms)
    then show ?case by (rule assms)
  qed (auto intro: assms)
  show "P e" by (rule p)
  show "Q es" by (induction es) (auto intro: assms p)
qed

lemma mutate_consts:
  "func (snd (mutate e s)) = func s \<and> args (snd (mutate e s)) = args s
   \<and> value_index (snd (mutate e s)) = value_index s
   \<and> op_x_names (snd (mutate e s)) = op_x_names s"
  and mutate_list_consts:
  "func (snd (mutate_list es s)) = func s \<and> args (snd (mutate_list es s)) = args s
   \<and> value_index (snd (mutate_list es s)) = value_index s
   \<and> op_x_names (snd (mutate_list es s)) = op_x_names s"
  by (induction e and es arbitrary: s and s rule: expr_induct)
     (simp_all add: split_beta Let_def)

lemma mutate_unsolvable:
  "\<not> is_solvable s \<Longrightarrow> \<not> is_solvable (snd (mutate e s))"
  and mutate_list_unsolvable:
  "\<not> is_solvable s \<Longrightarrow> \<not> is_solvable (snd (mutate_list es s))"
  by (induction e and es arbitrary: s and s rule: expr_induct)
     (simp_all add: split_beta Let_def build_call_unsolvable)

lemma mutate_select_free:
  "select_free e \<Longrightarrow> is_conditional (snd (mutate e s)) = is_conditional s"
  and mutate_list_select_free:
  "selects_free es \<Longrightarrow> is_conditional (snd (mutate_list es s)) = is_conditional s"
  by (induction e and es arbitrary: s and s rule: expr_induct)
     (simp_all add: split_beta Let_def)

lemma mutate_list_length: "length (fst (mutate_list es s)) = length es"
  by (induction es arbitrary: s) (simp_all add: split_beta Let_def)

subsection \<open>The expression a visit returns\<close>

text \<open>
  As long as the update is solvable, or some visit has assigned \<^verbatim>\<open>expr\<close> before, \<^verbatim>\<open>mutate\<close>
  returns a defined expression, the one it leaves in \<^verbatim>\<open>expr\<close>.
\<close>

lemma mutate_defined:
  "is_solvable s \<or> mutator_expr s \<noteq> None \<Longrightarrow>
   fst (mutate e s) \<noteq> None \<and> mutator_expr (snd (mutate e s)) = fst (mutate e s)"
  and mutate_list_defined:
  "is_solvable s \<or> mutator_expr s \<noteq> None \<Longrightarrow>
   list_all (\<lambda>a. a \<noteq> None) (fst (mutate_list es s))
   \<and> (is_solvable (snd (mutate_list es s)) \<or> mutator_expr (snd (mutate_list es s)) \<noteq> None)"
proof (induction e and es arbitrary: s and s rule: expr_induct)
  case (Cast t a)
  from Cast.IH [OF Cast.prems] obtain a' where "fst (mutate a s) = Some a'" by auto
  then show ?case by (simp add: split_beta Let_def)
next
  case (Bin b a c)
  from Bin.IH(1) [OF Bin.prems] obtain a' where a: "fst (mutate a s) = Some a'"
    and r: "mutator_expr (snd (mutate a s)) \<noteq> None" by auto
  from Bin.IH(2) [of "snd (mutate a s)"] r obtain c' where
    "fst (mutate c (snd (mutate a s))) = Some c'" by auto
  with a show ?case by (simp add: split_beta Let_def)
next
  case (Not_op a)
  from Not_op.IH [OF Not_op.prems] obtain a' where "fst (mutate a s) = Some a'" by auto
  then show ?case by (simp add: split_beta Let_def)
next
  case (Select c t f)
  let ?s0 = "s\<lparr>is_conditional := True\<rparr>"
  let ?s1 = "(snd (mutate c ?s0))\<lparr>is_conditional := False\<rparr>"
  let ?s2 = "snd (mutate t ?s1)"
  from Select.IH(1) [of ?s0] Select.prems obtain c' where c: "fst (mutate c ?s0) = Some c'"
    and r1: "mutator_expr (snd (mutate c ?s0)) \<noteq> None" by auto
  from Select.IH(2) [of ?s1] r1 obtain t' where t: "fst (mutate t ?s1) = Some t'"
    and r2: "mutator_expr ?s2 \<noteq> None" by auto
  from Select.IH(3) [of ?s2] r2 obtain f' where "fst (mutate f ?s2) = Some f'" by auto
  with c t show ?case by (simp add: split_beta Let_def)
next
  case (Let_expr n v b)
  from Let_expr.IH(1) [OF Let_expr.prems] obtain v' where v: "fst (mutate v s) = Some v'"
    and r: "mutator_expr (snd (mutate v s)) \<noteq> None" by auto
  from Let_expr.IH(2) [of "snd (mutate v s)"] r obtain b' where
    "fst (mutate b (snd (mutate v s))) = Some b'" by auto
  with v show ?case by (simp add: split_beta Let_def)
next
  case (Call t name cargs ct fdef vi)
  show ?case
  proof (cases "is_solvable s")
    case False
    with Call.prems show ?thesis by simp
  next
    case True
    from Call.IH [of s] True have "list_all (\<lambda>a. a \<noteq> None) (fst (mutate_list cargs s))"
      by simp
    then show ?thesis
      using True by (simp add: split_beta Let_def build_call_defined)
  qed
next
  case (Cons a as)
  from Cons.IH(1) [OF Cons.prems] have a: "fst (mutate a s) \<noteq> None"
    and r: "mutator_expr (snd (mutate a s)) \<noteq> None" by auto
  from Cons.IH(2) [of "snd (mutate a s)"] r a show ?case
    by (simp add: split_beta Let_def)
qed simp_all

lemma mutate_keeps_ready:
  "is_solvable s \<or> mutator_expr s \<noteq> None \<Longrightarrow> mutator_expr (snd (mutate e s)) \<noteq> None"
  using mutate_defined [of s e] by simp

subsection \<open>Conditional self-references\<close>

lemma visit_self_call_rejects:
  assumes "is_conditional s" "\<not> fdef" "length cargs = length (args s)"
  shows "\<not> is_solvable (snd (visit_self_call t (func s) cargs Halide fdef (value_index s) s))"
  using assms by (simp add: visit_self_call_def Let_def)

lemma conditional_self_call_unsolvable:
  "is_solvable s \<or> mutator_expr s \<noteq> None \<Longrightarrow>
   select_free e \<Longrightarrow> has_self_call (func s) (value_index s) e \<Longrightarrow> is_conditional s
   \<Longrightarrow> calls_well_formed (func s) (length (args s)) m e
   \<Longrightarrow> \<not> is_solvable (snd (mutate e s))"
  and conditional_self_calls_unsolvable:
  "is_solvable s \<or> mutator_expr s \<noteq> None \<Longrightarrow>
   selects_free es \<Longrightarrow> have_self_call (func s) (value_index s) es \<Longrightarrow> is_conditional s
   \<Longrightarrow> calls_well_formed_list (func s) (length (args s)) m es
   \<Longrightarrow> \<not> is_solvable (snd (mutate_list es s))"
proof (induction e and es arbitrary: s and s rule: expr_induct)
  case (Bin b a c)
  show ?case
  proof (cases "has_self_call (func s) (value_index s) a")
    case True
    with Bin have "\<not> is_solvable (snd (mutate a s))" by simp
    then show ?thesis by (simp add: split_beta Let_def mutate_unsolvable)
  next
    case False
    have r: "is_solvable (snd (mutate a s)) \<or> mutator_expr (snd (mutate a s)) \<noteq> None"
      using mutate_keeps_ready [OF Bin.prems(1), of a] by simp
    have "\<not> is_solvable (snd (mutate c (snd (mutate a s))))"
      using Bin.prems False by (intro Bin.IH(2) [OF r]) (simp_all add: mutate_consts mutate_select_free)
    then show ?thesis by (simp add: split_beta Let_def)
  qed
next
  case (Let_expr n v b)
  show ?case
  proof (cases "has_self_call (func s) (value_index s) v")
    case True
    with Let_expr have "\<not> is_solvable (snd (mutate v s))" by simp
    then show ?thesis by (simp add: split_beta Let_def mutate_unsolvable)
  next
    case False
    have r: "is_solvable (snd (mutate v s)) \<or> mutator_expr (snd (mutate v s)) \<noteq> None"
      using mutate_keeps_ready [OF Let_expr.prems(1), of v] by simp
    have "\<not> is_solvable (snd (mutate b (snd (mutate v s))))"
      using Let_expr.prems False by (intro Let_expr.IH(2) [OF r]) (simp_all add: mutate_consts mutate_select_free)
    then show ?thesis by (simp add: split_beta Let_def)
  qed
next
  case (Call t name cargs ct fdef vi)
  show ?case
  proof (cases "is_solvable s")
    case False
    then show ?thesis by simp
  next
    case solv: True
    show ?thesis
    proof (cases "have_self_call (func s) (value_index s) cargs")
      case True
      with Call have "\<not> is_solvable (snd (mutate_list cargs s))" by simp
      then show ?thesis
        using solv by (simp add: split_beta Let_def build_call_unsolvable)
    next
      case False
      let ?s1 = "snd (mutate_list cargs s)"
      let ?cargs = "map the (fst (mutate_list cargs s))"
      from False Call.prems(3) have self: "ct = Halide" "name = func s" "vi = value_index s"
        by auto
      from Call.prems(5) self have wf: "\<not> fdef" "length cargs = length (args s)"
        by auto
      have def: "list_all (\<lambda>a. a \<noteq> None) (fst (mutate_list cargs s))"
        using mutate_list_defined [of s cargs] solv by simp
      have "is_conditional ?s1"
        using Call.prems(2,4) by (simp add: mutate_list_select_free)
      moreover have "length ?cargs = length (args ?s1)"
        using wf by (simp add: mutate_list_length mutate_list_consts)
      ultimately have "\<not> is_solvable (snd (visit_self_call t (func ?s1) ?cargs Halide fdef
          (value_index ?s1) ?s1))"
        using wf(1) by (intro visit_self_call_rejects)
      then show ?thesis
        using solv self def by (simp add: split_beta Let_def mutate_list_consts build_call_defined)
    qed
  qed
next
  case (Cons a as)
  show ?case
  proof (cases "has_self_call (func s) (value_index s) a")
    case True
    with Cons have "\<not> is_solvable (snd (mutate a s))" by simp
    then show ?thesis by (simp add: split_beta Let_def mutate_list_unsolvable)
  next
    case False
    have r: "is_solvable (snd (mutate a s)) \<or> mutator_expr (snd (mutate a s)) \<noteq> None"
      using mutate_keeps_ready [OF Cons.prems(1), of a] by simp
    have "\<not> is_solvable (snd (mutate_list as (snd (mutate a s))))"
      using Cons.prems False by (intro Cons.IH(2) [OF r]) (simp_all add: mutate_consts mutate_select_free)
    then show ?thesis by (simp add: split_beta Let_def)
  qed
qed (simp_all add: split_beta Let_def)

lemma self_call_in_condition_unsolvable:
  "is_solvable s \<or> mutator_expr s \<noteq> None \<Longrightarrow>
   self_call_in_condition (func s) (value_index s) e
   \<Longrightarrow> calls_well_formed (func s) (length (args s)) m e
   \<Longrightarrow> \<not> is_solvable (snd (mutate e s))"
  and self_call_in_conditions_unsolvable:
  "is_solvable s \<or> mutator_expr s \<noteq> None \<Longrightarrow>
   self_call_in_conditions (func s) (value_index s) es
   \<Longrightarrow> calls_well_formed_list (func s) (length (args s)) m es
   \<Longrightarrow> \<not> is_solvable (snd (mutate_list es s))"
proof (induction e and es arbitrary: s and s rule: expr_induct)
  case (Bin b a c)
  show ?case
  proof (cases "self_call_in_condition (func s) (value_index s) a")
    case True
    with Bin have "\<not> is_solvable (snd (mutate a s))" by simp
    then show ?thesis by (simp add: split_beta Let_def mutate_unsolvable)
  next
    case False
    have r: "is_solvable (snd (mutate a s)) \<or> mutator_expr (snd (mutate a s)) \<noteq> None"
      using mutate_keeps_ready [OF Bin.prems(1), of a] by simp
    have "\<not> is_solvable (snd (mutate c (snd (mutate a s))))"
      using Bin.prems False by (intro Bin.IH(2) [OF r]) (simp_all add: mutate_consts)
    then show ?thesis by (simp add: split_beta Let_def)
  qed
next
  case (Select c t f)
  let ?s0 = "s\<lparr>is_conditional := True\<rparr>"
  let ?s1 = "snd (mutate c ?s0)"
  let ?s1' = "?s1\<lparr>is_conditional := False\<rparr>"
  let ?s2 = "snd (mutate t ?s1')"
  have res: "is_solvable (snd (mutate (Select c t f) s)) = is_solvable (snd (mutate f ?s2))"
    by (simp add: split_beta Let_def)
  have r0: "is_solvable ?s0 \<or> mutator_expr ?s0 \<noteq> None"
    using Select.prems(1) by simp
  have r1: "mutator_expr ?s1' \<noteq> None"
    using mutate_keeps_ready [OF r0, of c] by simp
  have r2: "mutator_expr ?s2 \<noteq> None"
    using mutate_keeps_ready [of ?s1' t] r1 by simp
  from Select.prems(3) have wf: "calls_well_formed (func s) (length (args s)) m c"
    "calls_well_formed (func s) (length (args s)) m t"
    "calls_well_formed (func s) (length (args s)) m f"
    by simp_all
  consider (direct) "select_free c" "has_self_call (func s) (value_index s) c"
    | (in_c) "self_call_in_condition (func s) (value_index s) c"
    | (in_t) "self_call_in_condition (func s) (value_index s) t"
    | (in_f) "self_call_in_condition (func s) (value_index s) f"
    using Select.prems(2) by auto
  then show ?case
  proof cases
    case direct
    have "\<not> is_solvable ?s1"
      using r0 direct wf(1) by (intro conditional_self_call_unsolvable [where m = m]) simp_all
    then show ?thesis
      unfolding res by (intro mutate_unsolvable) simp
  next
    case in_c
    have "\<not> is_solvable ?s1"
      using r0 in_c wf(1) by (intro Select.IH(1) [where s = ?s0]) simp_all
    then show ?thesis
      unfolding res by (intro mutate_unsolvable) simp
  next
    case in_t
    have "\<not> is_solvable ?s2"
      using r1 in_t wf(2) by (intro Select.IH(2)) (simp_all add: mutate_consts)
    then show ?thesis
      unfolding res by (rule mutate_unsolvable)
  next
    case in_f
    show ?thesis
      unfolding res using r2 in_f wf(3) by (intro Select.IH(3)) (simp_all add: mutate_consts)
  qed
next
  case (Let_expr n v b)
  show ?case
  proof (cases "self_call_in_condition (func s) (value_index s) v")
    case True
    with Let_expr have "\<not> is_solvable (snd (mutate v s))" by simp
    then show ?thesis by (simp add: split_beta Let_def mutate_unsolvable)
  next
    case False
    have r: "is_solvable (snd (mutate v s)) \<or> mutator_expr (snd (mutate v s)) \<noteq> None"
      using mutate_keeps_ready [OF Let_expr.prems(1), of v] by simp
    have "\<not> is_solvable (snd (mutate b (snd (mutate v s))))"
      using Let_expr.prems False by (intro Let_expr.IH(2) [OF r]) (simp_all add: mutate_consts)
    then show ?thesis by (simp add: split_beta Let_def)
  qed
next
  case (Call t name cargs ct fdef vi)
  then have "\<not> is_solvable (snd (mutate_list cargs s))" by simp
  then show ?case
    by (simp add: split_beta Let_def build_call_unsolvable)
next
  case (Cons a as)
  show ?case
  proof (cases "self_call_in_condition (func s) (value_index s) a")
    case True
    with Cons have "\<not> is_solvable (snd (mutate a s))" by simp
    then show ?thesis by (simp add: split_beta Let_def mutate_list_unsolvable)
  next
    case False
    have r: "is_solvable (snd (mutate a s)) \<or> mutator_expr (snd (mutate a s)) \<noteq> None"
      using mutate_keeps_ready [OF Cons.prems(1), of a] by simp
    have "\<not> is_solvable (snd (mutate_list as (snd (mutate a s))))"
      using Cons.prems False by (intro Cons.IH(2) [OF r]) (simp_all add: mutate_consts)
    then show ?thesis by (simp add: split_beta Let_def)
  qed
qed (simp_all add: split_beta Let_def)

subsection \<open>Assertions\<close>

lemma visit_self_call_no_assert:
  assumes "\<not> assert_failed s"
    and "ct = Halide \<and> name = func s
         \<Longrightarrow> \<not> fdef \<and> length cargs = length (args s) \<and> vi < length (op_x_names s)"
  shows "\<not> assert_failed (snd (visit_self_call t name cargs ct fdef vi s))"
  using assms by (auto simp: visit_self_call_def Let_def)

lemma mutate_no_assert:
  "is_solvable s \<or> mutator_expr s \<noteq> None \<Longrightarrow>
   calls_well_formed (func s) (length (args s)) (length (op_x_names s)) e
   \<Longrightarrow> \<not> assert_failed s \<Longrightarrow> \<not> assert_failed (snd (mutate e s))"
  and mutate_list_no_assert:
  "is_solvable s \<or> mutator_expr s \<noteq> None \<Longrightarrow>
   calls_well_formed_list (func s) (length (args s)) (length (op_x_names s)) es
   \<Longrightarrow> \<not> assert_failed s \<Longrightarrow> \<not> assert_failed (snd (mutate_list es s))"
proof (induction e and es arbitrary: s and s rule: expr_induct)
  case (Cast t a)
  from mutate_defined [OF Cast.prems(1), of a] obtain a' where "fst (mutate a s) = Some a'"
    by auto
  with Cast show ?case by (simp add: split_beta Let_def)
next
  case (Not_op a)
  from mutate_defined [OF Not_op.prems(1), of a] obtain a' where "fst (mutate a s) = Some a'"
    by auto
  with Not_op show ?case by (simp add: split_beta Let_def)
next
  case (Bin b a c)
  let ?s1 = "snd (mutate a s)"
  from mutate_defined [OF Bin.prems(1), of a] obtain a' where a: "fst (mutate a s) = Some a'"
    and r: "mutator_expr ?s1 \<noteq> None" by auto
  from mutate_defined [of ?s1 c] r obtain c' where c: "fst (mutate c ?s1) = Some c'" by auto
  have "\<not> assert_failed ?s1"
    using Bin.prems by (intro Bin.IH(1)) simp_all
  then have "\<not> assert_failed (snd (mutate c ?s1))"
    using Bin.prems r by (intro Bin.IH(2)) (simp_all add: mutate_consts)
  with a c show ?case by (simp add: split_beta Let_def)
next
  case (Let_expr n v b)
  let ?s1 = "snd (mutate v s)"
  from mutate_defined [OF Let_expr.prems(1), of v] obtain v' where v: "fst (mutate v s) = Some v'"
    and r: "mutator_expr ?s1 \<noteq> None" by auto
  from mutate_defined [of ?s1 b] r obtain b' where b: "fst (mutate b ?s1) = Some b'" by auto
  have "\<not> assert_failed ?s1"
    using Let_expr.prems by (intro Let_expr.IH(1)) simp_all
  then have "\<not> assert_failed (snd (mutate b ?s1))"
    using Let_expr.prems r by (intro Let_expr.IH(2)) (simp_all add: mutate_consts)
  with v b show ?case by (simp add: split_beta Let_def)
next
  case (Call t name cargs ct fdef vi)
  show ?case
  proof (cases "is_solvable s")
    case False
    with Call.prems show ?thesis by simp
  next
    case True
    let ?s1 = "snd (mutate_list cargs s)"
    let ?cargs = "map the (fst (mutate_list cargs s))"
    have def: "list_all (\<lambda>a. a \<noteq> None) (fst (mutate_list cargs s))"
      using mutate_list_defined [of s cargs] True by simp
    have "\<not> assert_failed ?s1"
      using Call by simp
    then have "\<not> assert_failed (snd (visit_self_call t name ?cargs ct fdef vi ?s1))"
      using Call.prems(2)
      by (intro visit_self_call_no_assert) (auto simp: mutate_list_consts mutate_list_length)
    then show ?thesis
      using True def by (simp add: split_beta Let_def build_call_defined)
  qed
next
  case (Select c t f)
  let ?s0 = "s\<lparr>is_conditional := True\<rparr>"
  let ?s1 = "snd (mutate c ?s0)"
  let ?s1' = "?s1\<lparr>is_conditional := False\<rparr>"
  let ?s2 = "snd (mutate t ?s1')"
  have r0: "is_solvable ?s0 \<or> mutator_expr ?s0 \<noteq> None"
    using Select.prems(1) by simp
  from mutate_defined [OF r0, of c] obtain c' where c: "fst (mutate c ?s0) = Some c'"
    and r1: "mutator_expr ?s1' \<noteq> None" by auto
  from mutate_defined [of ?s1' t] r1 obtain t' where t: "fst (mutate t ?s1') = Some t'"
    and r2: "mutator_expr ?s2 \<noteq> None" by auto
  from mutate_defined [of ?s2 f] r2 obtain f' where f: "fst (mutate f ?s2) = Some f'" by auto
  have 1: "\<not> assert_failed ?s1"
    using Select.prems r0 by (intro Select.IH(1)) simp_all
  have 2: "\<not> assert_failed ?s2"
    using Select.prems 1 r1 by (intro Select.IH(2)) (simp_all add: mutate_consts)
  have "\<not> assert_failed (snd (mutate f ?s2))"
    using Select.prems 2 r2 by (intro Select.IH(3)) (simp_all add: mutate_consts)
  with c t f show ?case by (simp add: split_beta Let_def)
next
  case (Cons a as)
  let ?s1 = "snd (mutate a s)"
  have r: "mutator_expr ?s1 \<noteq> None"
    using mutate_keeps_ready [OF Cons.prems(1)] .
  have "\<not> assert_failed ?s1"
    using Cons.prems by (intro Cons.IH(1)) simp_all
  then have "\<not> assert_failed (snd (mutate_list as ?s1))"
    using Cons.prems r by (intro Cons.IH(2)) (simp_all add: mutate_consts)
  then show ?case by (simp add: split_beta Let_def)
qed simp_all

subsection \<open>Accepted self-references\<close>

lemma replace_no_self_calls:
  "\<forall>vi. \<not> has_self_call f vi e \<Longrightarrow> replace_self_calls f xn e = e"
  and replace_no_self_calls_list:
  "\<forall>vi. \<not> have_self_call f vi es \<Longrightarrow> replace_self_calls_list f xn es = es"
proof (induction e and es rule: expr_induct)
  case (Call t name cargs ct fdef vi)
  from Call.prems have "\<not> (ct = Halide \<and> name = f)" and "\<forall>vi. \<not> have_self_call f vi cargs"
    by auto
  with Call.IH show ?case by simp
qed auto





subsection \<open>The first loop of the prover\<close>


lemma fresh_names_length:
  "length (fst (fst (fresh_names unique_name idxs g))) = length idxs
   \<and> length (snd (fst (fresh_names unique_name idxs g))) = length idxs"
  by (induction idxs arbitrary: g) (simp_all add: split_beta Let_def)

lemma convert_element_Inl:
  "convert_element ext f la xn idx st = Inl r \<Longrightarrow> r = Aborted \<or> r = Returned AssociativeOp_default"
  by (auto simp: convert_element_def Let_def split_beta split: if_splits option.splits)

lemma convert_element_early:
  assumes "\<not> assert_failed (snd (mutate (prepare_expr ext (es ! idx)) (ConvertSelfRef_init f la idx xn)))"
    and "\<not> is_solvable (snd (mutate (prepare_expr ext (es ! idx)) (ConvertSelfRef_init f la idx xn)))"
  shows "convert_element ext f la xn idx (es, xp, deps, ai) = Inl (Returned AssociativeOp_default)"
  using assms by (simp add: convert_element_def Let_def split_beta)

lemma convert_element_no_abort:
  assumes "\<not> assert_failed (snd (mutate (prepare_expr ext (es ! idx)) (ConvertSelfRef_init f la idx xn)))"
  shows "convert_element ext f la xn idx (es, xp, deps, ai) \<noteq> Inl Aborted"
proof -
  have "fst (mutate (prepare_expr ext (es ! idx)) (ConvertSelfRef_init f la idx xn)) \<noteq> None"
    using mutate_defined [of "ConvertSelfRef_init f la idx xn" "prepare_expr ext (es ! idx)"]
    by (simp add: ConvertSelfRef_init_def)
  with assms show ?thesis
    by (auto simp: convert_element_def Let_def split_beta)
qed

lemma convert_element_exprs:
  assumes "convert_element ext f la xn idx (es, xp, deps, ai) = Inr (es', xp', deps', ai')" "k \<noteq> idx"
  shows "es' ! k = es ! k"
  using assms
  by (auto simp: convert_element_def Let_def split_beta split: if_splits option.splits)

lemma init_fields [simp]:
  "func (ConvertSelfRef_init f la idx xn) = f"
  "args (ConvertSelfRef_init f la idx xn) = la"
  "value_index (ConvertSelfRef_init f la idx xn) = idx"
  "op_x_names (ConvertSelfRef_init f la idx xn) = xn"
  "is_solvable (ConvertSelfRef_init f la idx xn)"
  "\<not> is_conditional (ConvertSelfRef_init f la idx xn)"
  "\<not> assert_failed (ConvertSelfRef_init f la idx xn)"
  "x_dependencies (ConvertSelfRef_init f la idx xn) = {}"
  "x_part (ConvertSelfRef_init f la idx xn) = None"
  "mutator_expr (ConvertSelfRef_init f la idx xn) = None"
  by (simp_all add: ConvertSelfRef_init_def)

lemma convert_loop_default:
  assumes "distinct idxs" "idx \<in> set idxs"
    and "\<forall>k\<in>set idxs. es ! k = exprs ! k"
    and "\<forall>k\<in>set idxs. calls_well_formed f (length la) (length xn) (prepare_expr ext (exprs ! k))"
    and "self_call_in_condition f idx (prepare_expr ext (exprs ! idx))"
  shows "for_loop (convert_element ext f la xn) idxs (es, xp, deps, ai)
         = Inl (Returned AssociativeOp_default)"
  using assms
proof (induction idxs arbitrary: es xp deps ai)
  case Nil
  then show ?case by simp
next
  case (Cons i rest)
  let ?csr = "snd (mutate (prepare_expr ext (es ! i)) (ConvertSelfRef_init f la i xn))"
  have ei: "es ! i = exprs ! i"
    using Cons.prems(3) by simp
  have na: "\<not> assert_failed ?csr"
    using Cons.prems(4) ei by (intro mutate_no_assert) simp_all
  show ?case
  proof (cases "convert_element ext f la xn i (es, xp, deps, ai)")
    case (Inl r)
    then have "r = Returned AssociativeOp_default"
      using convert_element_Inl [OF Inl] convert_element_no_abort [OF na] by auto
    with Inl show ?thesis by simp
  next
    case (Inr st')
    obtain es' xp' deps' ai' where st': "st' = (es', xp', deps', ai')"
      by (cases st') auto
    have "idx \<noteq> i"
    proof
      assume "idx = i"
      then have "\<not> is_solvable ?csr"
        using Cons.prems(4,5) ei
        by (intro self_call_in_condition_unsolvable [where m = "length xn"]) simp_all
      then have "convert_element ext f la xn i (es, xp, deps, ai)
                 = Inl (Returned AssociativeOp_default)"
        using na by (intro convert_element_early)
      with Inr show False by simp
    qed
    then have in_rest: "idx \<in> set rest"
      using Cons.prems(2) by simp
    have keep: "\<forall>k\<in>set rest. es' ! k = exprs ! k"
    proof
      fix k assume k: "k \<in> set rest"
      then have "k \<noteq> i" using Cons.prems(1) by auto
      then have "es' ! k = es ! k"
        using Inr st' by (intro convert_element_exprs) auto
      then show "es' ! k = exprs ! k"
        using Cons.prems(3) k by simp
    qed
    have "for_loop (convert_element ext f la xn) rest (es', xp', deps', ai')
          = Inl (Returned AssociativeOp_default)"
      using Cons.prems(1,4,5) in_rest keep by (intro Cons.IH) simp_all
    then show ?thesis
      using Inr st' by simp
  qed
qed

lemma prove_with_names_conditional:
  assumes "idx < length exprs"
    and "\<forall>k<length exprs. calls_well_formed f (length lhs_args) (length x_names)
           (prepare_expr ext (exprs ! k))"
    and "self_call_in_condition f idx (prepare_expr ext (exprs ! idx))"
  shows "prove_with_names ext f lhs_args exprs x_names y_names = Returned AssociativeOp_default"
proof -
  have "for_loop (convert_element ext f (map (canonical_arg ext) lhs_args) x_names)
          (rev [0..<length exprs])
          (exprs, replicate (length exprs) None, replicate (length exprs) {}, True)
        = Inl (Returned AssociativeOp_default)"
    using assms by (intro convert_loop_default) simp_all
  then show ?thesis
    by (simp add: prove_with_names_def Let_def)
qed

subsection \<open>Self-references and Select\<close>

text \<open>
  Claim C2, amended. When a self-call at the value index being proved occurs in the condition
  of a \<^verbatim>\<open>Select\<close> of the prepared element \<open>idx\<close> (the condition itself holding no nested
  \<^verbatim>\<open>Select\<close>), and the self-calls of the prepared elements are well formed, the rewriter
  reports the element unsolvable and \<^verbatim>\<open>prove_associativity\<close> returns the default,
  non-associative result.
\<close>

theorem conditional_self_reference_rejected:
  assumes "idx < length exprs"
    and "\<forall>k<length exprs. calls_well_formed f (length lhs_args) (length exprs)
           (prepare_expr ext (exprs ! k))"
    and "self_call_in_condition f idx (prepare_expr ext (exprs ! idx))"
  shows "\<not> is_solvable (snd (mutate (prepare_expr ext (exprs ! idx))
            (ConvertSelfRef_init f (map (canonical_arg ext) lhs_args) idx
               (fst (fst (fresh_names unique_name [0..<length exprs] g))))))
         \<and> fst (prove_associativity ext unique_name f lhs_args exprs g)
           = Returned AssociativeOp_default"
proof -
  let ?xn = "fst (fst (fresh_names unique_name [0..<length exprs] g))"
  let ?yn = "snd (fst (fresh_names unique_name [0..<length exprs] g))"
  have len: "length ?xn = length exprs"
    using fresh_names_length [of unique_name "[0..<length exprs]" g] by simp
  have "\<not> is_solvable (snd (mutate (prepare_expr ext (exprs ! idx))
            (ConvertSelfRef_init f (map (canonical_arg ext) lhs_args) idx ?xn)))"
    using assms by (intro self_call_in_condition_unsolvable [where m = "length exprs"]) simp_all
  moreover have "prove_with_names ext f lhs_args exprs ?xn ?yn = Returned AssociativeOp_default"
    using assms len by (intro prove_with_names_conditional [where idx = idx]) simp_all
  ultimately show ?thesis
    by (simp add: prove_associativity_def split_beta Let_def)
qed

theorem conditional_self_reference_rejected_witness:
  "self_call_in_condition ''f'' 0 (Select (Bin LT (call_f 0) (call_g 0)) lhs_x (call_g 0))
   \<and> fst (prove_associativity test_externals counter_name ''f'' [lhs_x]
            [Select (Bin LT (call_f 0) (call_g 0)) lhs_x (call_g 0)] (0::nat))
     = Returned AssociativeOp_default"
proof -
  let ?e = "Select (Bin LT (call_f 0) (call_g 0)) lhs_x (call_g 0)"
  have p: "prepare_expr test_externals e = e" for e
    by (simp add: prepare_expr_def test_externals_def)
  have 1: "(0::nat) < length [?e]" by simp
  have 2: "\<forall>k<length [?e]. calls_well_formed ''f'' (length [lhs_x]) (length [?e])
             (prepare_expr test_externals ([?e] ! k))"
    by (simp add: p call_f_def call_g_def lhs_x_def)
  have 3: "self_call_in_condition ''f'' 0 (prepare_expr test_externals ([?e] ! 0))"
    by (simp add: p call_f_def call_g_def lhs_x_def)
  from conditional_self_reference_rejected [OF 1 2 3, of counter_name 0] 3
  show ?thesis by (simp add: p)
qed

text \<open>
  Claim C2 as stated also rejects a self-call in either value of a \<^verbatim>\<open>Select\<close>. The argmin
  update of the prover's tests has the self-call \<open>f(x)[1]\<close> as the true value of the
  \<^verbatim>\<open>Select\<close> of element 1: the rewriter reports the element solvable, and the prover
  returns an associative result.
\<close>

theorem self_call_in_branch_accepted:
  "self_call_in_select ''f'' 1 (Select (Bin LT (call_f 0) (call_g 0)) (call_f 1) (Variable i32 ''rx''))
   \<and> is_solvable (snd (mutate (Select (Bin LT (call_f 0) (call_g 0)) (call_f 1) (Variable i32 ''rx''))
                     (ConvertSelfRef_init ''f'' [lhs_x] 1 [''_x_0'', ''_x_1''])))
   \<and> associative_outcome (fst (prove_associativity test_externals counter_name ''f'' [lhs_x]
        [Bin Min_op (call_f 0) (call_g 0),
         Select (Bin LT (call_f 0) (call_g 0)) (call_f 1) (Variable i32 ''rx'')] (0::nat)))"
  by code_simp




section \<open>Properties of the single-element extractor\<close>

text \<open>
  Claim C4, amended. For an element \<open>Sub(Variable(op_x), rhs)\<close> with a recorded \<open>x\<close> part,
  where \<open>rhs\<close> does not use \<open>op_x\<close>, the extractor succeeds with the pattern \<open>x + y\<close>, the
  identity \<open>make_const(t, 0)\<close>, the \<open>x\<close> replacement \<open>(op_x, x_part)\<close> and the \<open>y\<close> replacement
  \<open>(op_y, rhs)\<close>, the right operand as it stands, and reports associative, not commutative.
\<close>

theorem sub_extracted_as_add:
  assumes "\<not> expr_uses_var rhs (x_names ! index)"
  shows "extract_associative_op_single_element ext index x_names y_names (Some x_part')
           (Bin Sub (Variable t (x_names ! index)) rhs) assoc_op
         = Returned ((True, False),
             set_y index \<lparr>var = y_names ! index, expr = Some rhs\<rparr>
               (set_x index \<lparr>var = x_names ! index, expr = Some x_part'\<rparr>
                 (set_identity index (Some (make_const ext t 0))
                   (set_op index
                      (Some (Bin Add (Variable t (x_names ! index)) (Variable t (y_names ! index))))
                      assoc_op))))"
  using assms
  by (simp add: extract_associative_op_single_element_def builtin_op_def builtin_pattern_def
      visit_associative_binary_op_def is_comparison_def Let_def)

theorem sub_extracted_as_add_witness:
  "extract_associative_op_single_element test_externals 0 [''_x_0''] [''_y_0''] (Some (call_f 0))
     (Bin Sub (Variable i32 ''_x_0'') (call_g 0)) (AssociativeOp_sized 1)
   = Returned ((True, False),
       \<lparr>pattern = \<lparr>ops = [Some (Bin Add (Variable i32 ''_x_0'') (Variable i32 ''_y_0''))],
                   identities = [Some (IntImm i32 0)], is_commutative = False\<rparr>,
        xs = [\<lparr>var = ''_x_0'', expr = Some (call_f 0)\<rparr>],
        ys = [\<lparr>var = ''_y_0'', expr = Some (call_g 0)\<rparr>],
        is_associative = False\<rparr>)"
proof -
  have "\<not> expr_uses_var (call_g 0) ([''_x_0''] ! 0)"
    by (simp add: call_g_def)
  from sub_extracted_as_add [OF this, of test_externals "[''_y_0'']" "call_f 0" i32 "AssociativeOp_sized 1"]
  show ?thesis
    by (simp add: set_y_def set_x_def set_identity_def set_op_def AssociativeOp_sized_def
        AssociativePattern_sized_def test_externals_def)
qed

text \<open>
  Claim C4 as stated has \<open>-rhs\<close> for the \<open>y\<close> replacement. For \<open>_x_0 - z\<close> the extractor
  stores \<open>z\<close>, which is not the negation of \<open>z\<close>.
\<close>

theorem sub_y_part_not_negated:
  "extract_associative_op_single_element test_externals 0 [''_x_0''] [''_y_0''] (Some (call_f 0))
     (Bin Sub (Variable i32 ''_x_0'') (Variable i32 ''z'')) (AssociativeOp_sized 1)
   = Returned ((True, False),
       \<lparr>pattern = \<lparr>ops = [Some (Bin Add (Variable i32 ''_x_0'') (Variable i32 ''_y_0''))],
                   identities = [Some (IntImm i32 0)], is_commutative = False\<rparr>,
        xs = [\<lparr>var = ''_x_0'', expr = Some (call_f 0)\<rparr>],
        ys = [\<lparr>var = ''_y_0'', expr = Some (Variable i32 ''z'')\<rparr>],
        is_associative = False\<rparr>)
   \<and> Variable i32 ''z'' \<noteq> negate test_externals (Variable i32 ''z'')"
  by (simp add: extract_associative_op_single_element_def builtin_op_def builtin_pattern_def
      visit_associative_binary_op_def is_comparison_def Let_def negate_def
      set_y_def set_x_def set_identity_def set_op_def AssociativeOp_sized_def
      AssociativePattern_sized_def test_externals_def)

section \<open>Properties of the pattern-table matcher\<close>


lemma set_fields [simp]:
  "xs (set_op i v a) = xs a" "ys (set_op i v a) = ys a"
  "ops (pattern (set_op i v a)) = (ops (pattern a))[i := v]"
  "identities (pattern (set_op i v a)) = identities (pattern a)"
  "is_associative (set_op i v a) = is_associative a"
  "xs (set_identity i v a) = xs a" "ys (set_identity i v a) = ys a"
  "ops (pattern (set_identity i v a)) = ops (pattern a)"
  "identities (pattern (set_identity i v a)) = (identities (pattern a))[i := v]"
  "is_associative (set_identity i v a) = is_associative a"
  "xs (set_x i r a) = (xs a)[i := r]" "ys (set_x i r a) = ys a"
  "pattern (set_x i r a) = pattern a"
  "is_associative (set_x i r a) = is_associative a"
  "xs (set_y i r a) = xs a" "ys (set_y i r a) = (ys a)[i := r]"
  "pattern (set_y i r a) = pattern a"
  "is_associative (set_y i r a) = is_associative a"
  by (simp_all add: set_op_def set_identity_def set_x_def set_y_def)

lemma collect_replacement_True:
  assumes "collect_replacement pm xn yn xp idxs a r = (True, a', r')"
  shows "r' = r @ map (y_replacement pm yn) idxs
         \<and> pattern a' = pattern a \<and> is_associative a' = is_associative a
         \<and> length (xs a') = length (xs a) \<and> length (ys a') = length (ys a)"
  using assms
proof (induction idxs arbitrary: a r)
  case Nil
  then show ?case by simp
next
  case (Cons i idxs)
  from Cons.prems obtain y_part where
    y: "map_of pm (''y'' @ to_string i) = Some y_part"
    by (cases "map_of pm (''y'' @ to_string i)") auto
  let ?a1 = "set_y i \<lparr>var = yn ! i, expr = Some y_part\<rparr>
               (set_x i \<lparr>var = xn ! i, expr = xp ! i\<rparr> a)"
  let ?r1 = "r @ [(y_part, Variable (type_of y_part) (yn ! i))]"
  from Cons.prems y have "collect_replacement pm xn yn xp idxs ?a1 ?r1 = (True, a', r')"
    by simp
  from Cons.IH [OF this] show ?case
    using y by (simp add: y_replacement_def)
qed

lemma collect_replacement_shape:
  "pattern (fst (snd (collect_replacement pm xn yn xp idxs a r))) = pattern a
   \<and> is_associative (fst (snd (collect_replacement pm xn yn xp idxs a r))) = is_associative a
   \<and> length (xs (fst (snd (collect_replacement pm xn yn xp idxs a r)))) = length (xs a)
   \<and> length (ys (fst (snd (collect_replacement pm xn yn xp idxs a r)))) = length (ys a)"
  by (induction idxs arbitrary: a r) (auto split: option.splits)


lemma fold_update_length:
  "length (fold (\<lambda>i l. l[i := g i]) idxs l) = length l"
  by (induction idxs arbitrary: l) simp_all


lemma rebuild_ops_fields:
  "ops (pattern (rebuild_ops p exprs r a))
     = fold (\<lambda>i l. l[i := Some (substitute_all r (exprs ! i))]) [0..<length exprs] (ops (pattern a))
   \<and> identities (pattern (rebuild_ops p exprs r a))
     = fold (\<lambda>i l. l[i := identities p ! i]) [0..<length exprs] (identities (pattern a))
   \<and> xs (rebuild_ops p exprs r a) = xs a \<and> ys (rebuild_ops p exprs r a) = ys a
   \<and> is_associative (rebuild_ops p exprs r a) = is_associative a"
proof -
  have "ops (pattern (fold (\<lambda>index a.
             set_identity index (identities p ! index)
               (set_op index (Some (substitute_all r (exprs ! index))) a)) idxs a))
     = fold (\<lambda>i l. l[i := Some (substitute_all r (exprs ! i))]) idxs (ops (pattern a))
   \<and> identities (pattern (fold (\<lambda>index a.
             set_identity index (identities p ! index)
               (set_op index (Some (substitute_all r (exprs ! index))) a)) idxs a))
     = fold (\<lambda>i l. l[i := identities p ! i]) idxs (identities (pattern a))
   \<and> xs (fold (\<lambda>index a.
             set_identity index (identities p ! index)
               (set_op index (Some (substitute_all r (exprs ! index))) a)) idxs a) = xs a
   \<and> ys (fold (\<lambda>index a.
             set_identity index (identities p ! index)
               (set_op index (Some (substitute_all r (exprs ! index))) a)) idxs a) = ys a
   \<and> is_associative (fold (\<lambda>index a.
             set_identity index (identities p ! index)
               (set_op index (Some (substitute_all r (exprs ! index))) a)) idxs a)
       = is_associative a" for idxs
    by (induction idxs arbitrary: a) simp_all
  then show ?thesis
    unfolding rebuild_ops_def by blast
qed


lemma find_match_loop_True:
  assumes "find_match_loop ext table xn yn xp exprs a = Returned (True, a')"
  shows "\<exists>pm a0. pattern a0 = pattern a \<and> length (ys a0) = length (ys a)
           \<and> length (xs a0) = length (xs a)
           \<and> collect_replacement pm xn yn xp [0..<length yn] a0 []
               = (True, fst (snd (collect_replacement pm xn yn xp [0..<length yn] a0 [])),
                  map (y_replacement pm yn) [0..<length yn])
           \<and> (\<exists>p\<in>set table.
                 match_ops ext exprs (ops p) xn yn [0..<length (ops p)] [] = Returned (Some pm)
                 \<and> a' = rebuild_ops p exprs (map (y_replacement pm yn) [0..<length yn])
                        (fst (snd (collect_replacement pm xn yn xp [0..<length yn] a0 []))))"
  using assms
proof (induction table arbitrary: a)
  case Nil
  then show ?case by simp
next
  case (Cons p table)
  show ?case
  proof (cases "match_ops ext exprs (ops p) xn yn [0..<length (ops p)] []")
    case Diverged
    with Cons.prems show ?thesis by (simp split: if_splits)
  next
    case Aborted
    with Cons.prems show ?thesis by (simp split: if_splits)
  next
    case (Returned mo)
    show ?thesis
    proof (cases mo)
      case None
      with Cons.prems Returned
      have "find_match_loop ext table xn yn xp exprs a = Returned (True, a')"
        by (simp split: if_splits)
      from Cons.IH [OF this] show ?thesis by auto
    next
      case (Some pm)
      obtain m a1 r1 where
        c: "collect_replacement pm xn yn xp [0..<length yn] a [] = (m, a1, r1)"
        by (cases "collect_replacement pm xn yn xp [0..<length yn] a []") auto
      show ?thesis
      proof (cases m)
        case True
        with c have r1: "r1 = map (y_replacement pm yn) [0..<length yn]"
          using collect_replacement_True [of pm xn yn xp "[0..<length yn]" a "[]" a1 r1] by simp
        from Cons.prems Returned Some c True have "a' = rebuild_ops p exprs r1 a1"
          by (simp split: if_splits)
        with c True r1 Returned Some show ?thesis
          by (intro exI [of _ pm] exI [of _ a]) auto
      next
        case False
        with Cons.prems Returned Some c
        have "find_match_loop ext table xn yn xp exprs a1 = Returned (True, a')"
          by (simp split: if_splits)
        from Cons.IH [OF this] obtain pm' a0 where
          "pattern a0 = pattern a1" "length (ys a0) = length (ys a1)"
          "length (xs a0) = length (xs a1)"
          "collect_replacement pm' xn yn xp [0..<length yn] a0 []
                 = (True, fst (snd (collect_replacement pm' xn yn xp [0..<length yn] a0 [])),
                    map (y_replacement pm' yn) [0..<length yn])"
          "\<exists>p\<in>set table.
             match_ops ext exprs (ops p) xn yn [0..<length (ops p)] [] = Returned (Some pm')
             \<and> a' = rebuild_ops p exprs (map (y_replacement pm' yn) [0..<length yn])
                    (fst (snd (collect_replacement pm' xn yn xp [0..<length yn] a0 [])))"
          by blast
        moreover have "pattern a1 = pattern a" "length (ys a1) = length (ys a)"
          "length (xs a1) = length (xs a)"
          using collect_replacement_shape [of pm xn yn xp "[0..<length yn]" a "[]"] c
          by simp_all
        ultimately show ?thesis
          by (intro exI [of _ pm'] exI [of _ a0]) auto
      qed
    qed
  qed
qed

lemma collect_replacement_other:
  "i \<notin> set idxs
   \<Longrightarrow> ys (fst (snd (collect_replacement pm xn yn xp idxs a r))) ! i = ys a ! i"
  by (induction idxs arbitrary: a r) (auto split: option.splits)

lemma collect_replacement_ys:
  assumes "collect_replacement pm xn yn xp idxs a r = (True, a', r')"
    and "distinct idxs" "i \<in> set idxs" "i < length (ys a)"
  shows "ys a' ! i = \<lparr>var = yn ! i, expr = Some (fst (y_replacement pm yn i))\<rparr>"
  using assms
proof (induction idxs arbitrary: a r)
  case Nil
  then show ?case by simp
next
  case (Cons k idxs)
  from Cons.prems(1) obtain y_part where
    y: "map_of pm (''y'' @ to_string k) = Some y_part"
    by (cases "map_of pm (''y'' @ to_string k)") auto
  let ?a1 = "set_y k \<lparr>var = yn ! k, expr = Some y_part\<rparr>
               (set_x k \<lparr>var = xn ! k, expr = xp ! k\<rparr> a)"
  let ?r1 = "r @ [(y_part, Variable (type_of y_part) (yn ! k))]"
  from Cons.prems(1) y have rec: "collect_replacement pm xn yn xp idxs ?a1 ?r1 = (True, a', r')"
    by simp
  show ?case
  proof (cases "i = k")
    case True
    then have "i \<notin> set idxs" using Cons.prems(2) by simp
    then have "ys a' ! i = ys ?a1 ! i"
      using collect_replacement_other [of i idxs pm xn yn xp ?a1 ?r1] rec by simp
    then show ?thesis
      using True y Cons.prems(4) by (simp add: y_replacement_def)
  next
    case False
    then show ?thesis
      using Cons.IH [OF rec] Cons.prems(2,3,4) by simp
  qed
qed




section \<open>Properties of the prover\<close>


lemma sized_set [simp]:
  "sized n (set_op i v a) = sized n a" "sized n (set_identity i v a) = sized n a"
  "sized n (set_x i r a) = sized n a" "sized n (set_y i r a) = sized n a"
  by (simp_all add: sized_def)

lemma sized_init [simp]: "sized n (AssociativeOp_sized n)"
  by (simp add: sized_def AssociativeOp_sized_def AssociativePattern_sized_def)

lemma sized_flag [simp]: "sized n (a\<lparr>is_associative := b\<rparr>) = sized n a"
  by (simp add: sized_def)

lemma collect_replacement_sized:
  "sized n (fst (snd (collect_replacement pm xn yn xp idxs a r))) = sized n a"
  using collect_replacement_shape [of pm xn yn xp idxs a r] by (simp add: sized_def)

lemma rebuild_ops_sized: "sized n (rebuild_ops p exprs r a) = sized n a"
  by (simp add: sized_def rebuild_ops_fields fold_update_length)

lemma find_match_loop_result:
  "find_match_loop ext table xn yn xp exprs a \<noteq> Diverged
   \<and> (\<forall>m a'. find_match_loop ext table xn yn xp exprs a = Returned (m, a') \<longrightarrow> sized n a
        \<longrightarrow> sized n a')"
proof (induction table arbitrary: a)
  case Nil
  then show ?case by simp
next
  case (Cons p table)
  show ?case
  proof (cases "length (ops p) = length xn")
    case False
    then show ?thesis by simp
  next
    case len: True
    show ?thesis
    proof (cases "match_ops ext exprs (ops p) xn yn [0..<length xn] []")
      case Diverged
      have "match_ops ext exprs pops xn yn idxs pm \<noteq> Diverged" for pops idxs pm
        by (induction idxs arbitrary: pm)
           (auto simp: associative_op_pattern_match_def split: option.splits outcome.splits)
      with Diverged show ?thesis by simp
    next
      case Aborted
      then show ?thesis using len by simp
    next
      case (Returned mo)
      show ?thesis
      proof (cases mo)
        case None
        then show ?thesis using len Returned Cons.IH [of a] by simp
      next
        case (Some pm)
        obtain m a1 r1 where
          c: "collect_replacement pm xn yn xp [0..<length yn] a [] = (m, a1, r1)"
          by (cases "collect_replacement pm xn yn xp [0..<length yn] a []") auto
        have s1: "sized n a1 = sized n a"
          using collect_replacement_sized [of n pm xn yn xp "[0..<length yn]" a "[]"] c by simp
        show ?thesis
        proof (cases m)
          case True
          then show ?thesis using len Returned Some c s1 by (simp add: rebuild_ops_sized)
        next
          case False
          then show ?thesis using len Returned Some c s1 Cons.IH [of a1] by simp
        qed
      qed
    qed
  qed
qed

lemma find_match_not_Diverged: "find_match ext table xn yn xp exprs a \<noteq> Diverged"
  using find_match_loop_result [of ext table xn yn xp exprs a] by (simp add: find_match_def)

lemma find_match_sized:
  "find_match ext table xn yn xp exprs a = Returned (m, a') \<Longrightarrow> sized n a \<Longrightarrow> sized n a'"
  using find_match_loop_result [of ext table xn yn xp exprs a n]
  by (simp add: find_match_def split: if_splits)

lemma visit_associative_binary_op_result:
  "sized n (snd (visit_associative_binary_op T index op_x op_y xp lhs rhs a)) = sized n a
   \<and> is_associative (snd (visit_associative_binary_op T index op_x op_y xp lhs rhs a))
     = is_associative a"
  by (simp add: visit_associative_binary_op_def Let_def)

lemma builtin_op_not_Diverged: "builtin_op ext index op_x op_y xp e a \<noteq> Diverged"
  by (cases e) (simp_all add: builtin_op_def Let_def split: option.splits prod.splits)

lemma builtin_op_result:
  assumes "builtin_op ext index op_x op_y xp e a = Returned (res, a')"
  shows "sized n a' = sized n a \<and> is_associative a' = is_associative a"
proof (cases e)
  case (Bin b lhs rhs)
  let ?t = "type_of e"
  show ?thesis
  proof (cases "builtin_pattern ext b ?t (Variable ?t op_x) (Variable ?t op_y)")
    case None
    with assms Bin show ?thesis by (simp add: builtin_op_def Let_def)
  next
    case (Some pr)
    obtain op ident where pr: "pr = (op, ident)" by (cases pr) auto
    let ?a0 = "set_identity index (Some ident) (set_op index (Some op) a)"
    from assms Bin Some pr
    have "a' = snd (visit_associative_binary_op b index op_x op_y xp lhs rhs ?a0)"
      by (simp add: builtin_op_def Let_def)
    then show ?thesis
      using visit_associative_binary_op_result [of n b index op_x op_y xp lhs rhs ?a0] by simp
  qed
qed (use assms in \<open>simp_all add: builtin_op_def Let_def\<close>)

lemma table_lookup_not_Diverged: "table_lookup ext index op_x op_y xp e c a \<noteq> Diverged"
  using find_match_not_Diverged [of ext "get_ops_table ext [e]" "[op_x]" "[op_y]" "[xp]" "[e]"
      "AssociativeOp_sized 1"]
  by (simp add: table_lookup_def split: outcome.splits bool.splits prod.splits)

lemma table_lookup_result:
  assumes "table_lookup ext index op_x op_y xp e c a = Returned (res, a')"
  shows "sized n a' = sized n a \<and> is_associative a' = is_associative a"
proof (cases "find_match ext (get_ops_table ext [e]) [op_x] [op_y] [xp] [e] (AssociativeOp_sized 1)")
  case (Returned r)
  obtain m tmp where r: "r = (m, tmp)" by (cases r) auto
  show ?thesis
    using assms Returned r by (cases m) (auto simp: table_lookup_def)
qed (use assms in \<open>simp_all add: table_lookup_def\<close>)

lemma extract_not_Diverged:
  "extract_associative_op_single_element ext index xn yn xp e a \<noteq> Diverged"
  using builtin_op_not_Diverged [of ext index "xn ! index" "yn ! index" xp e a]
    table_lookup_not_Diverged [of ext index "xn ! index" "yn ! index" xp e]
  by (simp add: extract_associative_op_single_element_def Let_def
      split: outcome.splits prod.splits)

lemma extract_result:
  assumes "extract_associative_op_single_element ext index xn yn xp e a = Returned (res, a')"
  shows "sized n a' = sized n a \<and> is_associative a' = is_associative a"
proof (cases "xp = None")
  case True
  with assms show ?thesis
    by (auto simp: extract_associative_op_single_element_def Let_def)
next
  case False
  show ?thesis
  proof (cases "builtin_op ext index (xn ! index) (yn ! index) xp e a")
    case (Returned r)
    obtain ia ic a1 where r: "r = ((ia, ic), a1)" by (cases r) auto
    have a1: "sized n a1 = sized n a \<and> is_associative a1 = is_associative a"
      using builtin_op_result [of ext index "xn ! index" "yn ! index" xp e a "(ia, ic)" a1 n]
        Returned r by simp
    show ?thesis
    proof (cases "\<not> ia \<and> code (type_of e) = TInt \<and> bits (type_of e) = 32")
      case True
      with assms False Returned r
      have "table_lookup ext index (xn ! index) (yn ! index) xp e ic a1 = Returned (res, a')"
        by (simp add: extract_associative_op_single_element_def Let_def)
      from table_lookup_result [OF this, of n] a1 show ?thesis by simp
    next
      case no_table: False
      with assms False Returned r have "a' = a1"
        by (auto simp: extract_associative_op_single_element_def Let_def)
      with a1 show ?thesis by simp
    qed
  qed (use assms False in \<open>simp_all add: extract_associative_op_single_element_def Let_def\<close>)
qed

subsection \<open>Loops with early return\<close>

lemma for_loop_Inl:
  assumes "for_loop body idxs s = Inl r"
  shows "\<exists>i s'. body i s' = Inl r"
  using assms
  by (induction idxs arbitrary: s) (auto split: sum.splits)

lemma for_loop_Inr:
  assumes "for_loop body idxs s = Inr s'" and "I s"
    and "\<And>i s s'. I s \<Longrightarrow> body i s = Inr s' \<Longrightarrow> I s'"
  shows "I s'"
  using assms(1,2)
proof (induction idxs arbitrary: s)
  case Nil
  then show ?case by simp
next
  case (Cons i idxs)
  then show ?case
    by (cases "body i s") (auto intro: assms(3))
qed

lemma prove_element_Inl:
  assumes "prove_element ext xn yn xp es idx a = Inl r"
  shows "r = Aborted \<or> r = Returned AssociativeOp_default"
  using assms extract_not_Diverged [of ext idx xn yn "xp ! idx" "es ! idx" a]
  by (auto simp: prove_element_def split: outcome.splits prod.splits if_splits)

lemma prove_element_Inr:
  assumes "prove_element ext xn yn xp es idx a = Inr a'"
  shows "sized n a' = sized n a \<and> is_associative a' = is_associative a"
proof (cases "extract_associative_op_single_element ext idx xn yn (xp ! idx) (es ! idx) a")
  case (Returned r)
  obtain res a1 where r: "r = (res, a1)" by (cases r) auto
  from assms Returned r have "a' = a1"
    by (auto simp: prove_element_def split: prod.splits if_splits)
  with extract_result [of ext idx xn yn "xp ! idx" "es ! idx" a res a1 n] Returned r
  show ?thesis by simp
qed (use assms in \<open>simp_all add: prove_element_def\<close>)

lemma merge_subgraph_result:
  assumes "merge_subgraph pairs sub a = Some a'"
  shows "sized n a' = sized n a \<and> is_associative a' = is_associative a"
  using assms
  by (induction pairs sub a rule: merge_subgraph.induct) (auto split: if_splits)

lemma get_subvector_cases:
  "get_subvector v S = Aborted
   \<or> get_subvector v S = Returned (map (\<lambda>index. v ! index) (sorted_list_of_set S))"
  by (simp add: get_subvector_def)

lemma prove_subgraph_unfold:
  assumes "subgraphs ! i \<noteq> {}" "\<not> 2 < card (subgraphs ! i)"
    and "get_subvector es (subgraphs ! i) = Returned sub_exprs"
    and "get_subvector xn (subgraphs ! i) = Returned sub_xn"
    and "get_subvector yn (subgraphs ! i) = Returned sub_yn"
    and "get_subvector xp (subgraphs ! i) = Returned sub_xp"
  shows "prove_subgraph ext xn yn xp es subgraphs i a =
     (case find_match ext (get_ops_table ext sub_exprs) sub_xn sub_yn sub_xp sub_exprs
             (AssociativeOp_sized (length sub_exprs)) of
        Diverged \<Rightarrow> Inl Diverged
      | Aborted \<Rightarrow> Inl Aborted
      | Returned (False, sub_assoc_op) \<Rightarrow> Inl (Returned AssociativeOp_default)
      | Returned (True, sub_assoc_op) \<Rightarrow>
          (case merge_subgraph
                  (zip (sorted_list_of_set (subgraphs ! i)) [0..<card (subgraphs ! i)])
                  sub_assoc_op a of
             None \<Rightarrow> Inl (Returned AssociativeOp_default)
           | Some assoc_op' \<Rightarrow> Inr assoc_op'))"
  using assms by (simp add: prove_subgraph_def Let_def)

lemma prove_subgraph_aborts:
  assumes "subgraphs ! i \<noteq> {}" "\<not> 2 < card (subgraphs ! i)"
    and "get_subvector es (subgraphs ! i) = Aborted \<or> get_subvector xn (subgraphs ! i) = Aborted
         \<or> get_subvector yn (subgraphs ! i) = Aborted \<or> get_subvector xp (subgraphs ! i) = Aborted"
  shows "prove_subgraph ext xn yn xp es subgraphs i a = Inl Aborted"
  using assms get_subvector_cases [of es "subgraphs ! i"] get_subvector_cases [of xn "subgraphs ! i"]
    get_subvector_cases [of yn "subgraphs ! i"] get_subvector_cases [of xp "subgraphs ! i"]
  by (auto simp: prove_subgraph_def Let_def)

lemma prove_subgraph_result:
  "(\<forall>r. prove_subgraph ext xn yn xp es subgraphs i a = Inl r
        \<longrightarrow> r = Aborted \<or> r = Returned AssociativeOp_default)
   \<and> (\<forall>a'. prove_subgraph ext xn yn xp es subgraphs i a = Inr a'
        \<longrightarrow> sized n a' = sized n a \<and> is_associative a' = is_associative a)"
proof (cases "subgraphs ! i = {}")
  case True
  then show ?thesis by (simp add: prove_subgraph_def)
next
  case ne: False
  show ?thesis
  proof (cases "2 < card (subgraphs ! i)")
    case True
    then show ?thesis using ne by (simp add: prove_subgraph_def)
  next
    case small: False
    let ?S = "subgraphs ! i"
    show ?thesis
    proof (cases "get_subvector es ?S = Aborted \<or> get_subvector xn ?S = Aborted
                  \<or> get_subvector yn ?S = Aborted \<or> get_subvector xp ?S = Aborted")
      case True
      from prove_subgraph_aborts [OF ne small True] show ?thesis by simp
    next
      case False
      then obtain se sx sy sp where sub: "get_subvector es ?S = Returned se"
        "get_subvector xn ?S = Returned sx" "get_subvector yn ?S = Returned sy"
        "get_subvector xp ?S = Returned sp"
        using get_subvector_cases [of es ?S] get_subvector_cases [of xn ?S]
          get_subvector_cases [of yn ?S] get_subvector_cases [of xp ?S] by auto
      note u = prove_subgraph_unfold [OF ne small sub, of ext a]
      show ?thesis
      proof (cases "find_match ext (get_ops_table ext se) sx sy sp se (AssociativeOp_sized (length se))")
        case Diverged
        then show ?thesis using find_match_not_Diverged by blast
      next
        case Aborted
        then show ?thesis unfolding u by simp
      next
        case (Returned r)
        obtain m sub_a where r: "r = (m, sub_a)" by (cases r) auto
        show ?thesis
        proof (cases m)
          case False
          then show ?thesis unfolding u using Returned r by simp
        next
          case True
          show ?thesis
          proof (cases "merge_subgraph (zip (sorted_list_of_set ?S) [0..<card ?S]) sub_a a")
            case None
            then show ?thesis unfolding u using Returned r True by simp
          next
            case (Some a1)
            from merge_subgraph_result [OF Some, of n] show ?thesis
              unfolding u using Returned r True Some by simp
          qed
        qed
      qed
    qed
  qed
qed

lemma finish_loop_result:
  assumes body_Inl: "\<And>i s r. body i s = Inl r \<Longrightarrow> r = Aborted \<or> r = Returned AssociativeOp_default"
    and body_Inr: "\<And>i s s'. body i s = Inr s' \<Longrightarrow>
          sized n s' = sized n s \<and> is_associative s' = is_associative s"
    and "sized n a"
  shows "finish (for_loop body idxs a) = Aborted
         \<or> finish (for_loop body idxs a) = Returned AssociativeOp_default
         \<or> (\<exists>r. finish (for_loop body idxs a) = Returned r \<and> is_associative r \<and> sized n r)"
proof (cases "for_loop body idxs a")
  case (Inl r)
  from for_loop_Inl [OF Inl] body_Inl have "r = Aborted \<or> r = Returned AssociativeOp_default"
    by blast
  with Inl show ?thesis by (auto simp: finish_def)
next
  case (Inr a')
  have "sized n a'"
  proof (rule for_loop_Inr [where I = "sized n", OF Inr])
    show "sized n a" by (rule assms(3))
  next
    fix i s s' assume "sized n s" "body i s = Inr s'"
    then show "sized n s'" using body_Inr [of i s s'] by simp
  qed
  with Inr show ?thesis by (simp add: finish_def)
qed

lemma compute_subgraphs_length: "length (compute_subgraphs deps) = length deps"
proof -
  have "length (fold (subgraph_step deps) idxs sg) = length sg" for idxs sg
    by (induction idxs arbitrary: sg) (simp_all add: subgraph_step_def Let_def)
  then show ?thesis by (simp add: compute_subgraphs_def)
qed

lemma prove_with_names_result:
  "prove_with_names ext f lhs_args exprs xn yn = Aborted
   \<or> prove_with_names ext f lhs_args exprs xn yn = Returned AssociativeOp_default
   \<or> (\<exists>r. prove_with_names ext f lhs_args exprs xn yn = Returned r \<and> is_associative r
          \<and> sized (length exprs) r)"
proof -
  let ?n = "length exprs"
  let ?loop = "for_loop (convert_element ext f (map (canonical_arg ext) lhs_args) xn)
                 (rev [0..<?n]) (exprs, replicate ?n None, replicate ?n {}, True)"
  show ?thesis
  proof (cases ?loop)
    case (Inl r)
    from for_loop_Inl [OF Inl] convert_element_Inl
    have "r = Aborted \<or> r = Returned AssociativeOp_default" by blast
    with Inl show ?thesis by (auto simp: prove_with_names_def Let_def)
  next
    case (Inr st)
    obtain es xp deps ai where st: "st = (es, xp, deps, ai)" by (cases st) auto
    let ?deps = "fst (atd_pass deps)"
    show ?thesis
    proof (cases "ai \<or> ?n = 1")
      case True
      have "prove_with_names ext f lhs_args exprs xn yn
            = finish (for_loop (prove_element ext xn yn xp es) [0..<?n] (AssociativeOp_sized ?n))"
        using Inr st True
        by (simp add: prove_with_names_def Let_def add_transitive_dependencies_one_pass)
      moreover have "finish (for_loop (prove_element ext xn yn xp es) [0..<?n] (AssociativeOp_sized ?n)) = Aborted
         \<or> finish (for_loop (prove_element ext xn yn xp es) [0..<?n] (AssociativeOp_sized ?n)) = Returned AssociativeOp_default
         \<or> (\<exists>r. finish (for_loop (prove_element ext xn yn xp es) [0..<?n] (AssociativeOp_sized ?n)) = Returned r \<and> is_associative r \<and> sized ?n r)"
        by (rule finish_loop_result) (auto dest: prove_element_Inl prove_element_Inr [where n = ?n])
      ultimately show ?thesis by simp
    next
      case False
      let ?sg = "compute_subgraphs ?deps"
      show ?thesis
      proof (cases "length ?sg = ?n")
        case ne: False
        then show ?thesis
          using Inr st False
          by (simp add: prove_with_names_def Let_def add_transitive_dependencies_one_pass)
      next
        case True
        have "prove_with_names ext f lhs_args exprs xn yn
              = finish (for_loop (prove_subgraph ext xn yn xp es ?sg) [0..<length ?sg]
                          (AssociativeOp_sized ?n))"
          using Inr st False True
          by (simp add: prove_with_names_def Let_def add_transitive_dependencies_one_pass)
        moreover have "finish (for_loop (prove_subgraph ext xn yn xp es ?sg) [0..<length ?sg] (AssociativeOp_sized ?n)) = Aborted
           \<or> finish (for_loop (prove_subgraph ext xn yn xp es ?sg) [0..<length ?sg] (AssociativeOp_sized ?n)) = Returned AssociativeOp_default
           \<or> (\<exists>r. finish (for_loop (prove_subgraph ext xn yn xp es ?sg) [0..<length ?sg] (AssociativeOp_sized ?n)) = Returned r \<and> is_associative r \<and> sized ?n r)"
          using prove_subgraph_result [of ext xn yn xp es ?sg _ _ ?n]
          by (intro finish_loop_result) auto
        ultimately show ?thesis by simp
      qed
    qed
  qed
qed


subsection \<open>The run of the prover\<close>

lemma prove_associativity_names:
  "fst (prove_associativity ext unique_name f lhs_args exprs g)
   = prove_with_names ext f lhs_args exprs (drawn_x_names unique_name (length exprs) g)
       (drawn_y_names unique_name (length exprs) g)"
  by (simp add: prove_associativity_def drawn_x_names_def drawn_y_names_def split_beta Let_def)

lemma insert_missing_length: "length (fst (insert_missing i idx st)) = length (fst st)"
  by (simp add: insert_missing_def split_beta)

lemma fold_length:
  assumes "\<And>x st. length (fst (f x st)) = length (fst st)"
  shows "length (fst (fold f l st)) = length (fst st)"
  by (induction l arbitrary: st) (simp_all add: assms)

lemma atd_inner_length: "length (fst (atd_inner i j st)) = length (fst st)"
  by (simp add: atd_inner_def split_beta fold_length insert_missing_length)

lemma atd_pass_length: "length (fst (atd_pass deps)) = length deps"
proof -
  have "length (fst (fold (\<lambda>i st. fold (atd_inner i) js st) ks st)) = length (fst st)"
    for js ks st
    by (rule fold_length) (simp add: fold_length atd_inner_length)
  then show ?thesis by (simp add: atd_pass_def)
qed

lemma add_transitive_dependencies_length:
  "add_transitive_dependencies deps = Some deps' \<Longrightarrow> length deps' = length deps"
  by (auto simp: add_transitive_dependencies_one_pass atd_pass_length)

lemma convert_element_lengths:
  assumes "convert_element ext f la xn idx (es, xp, deps, ai) = Inr (es', xp', deps', ai')"
  shows "length es' = length es \<and> length xp' = length xp \<and> length deps' = length deps"
  using assms
  by (auto simp: convert_element_def Let_def split_beta split: if_splits option.splits)

lemma first_loop_lengths:
  assumes "first_loop ext f lhs_args xn exprs = Inr (es, xp, deps, ai)"
  shows "length es = length exprs \<and> length xp = length exprs \<and> length deps = length exprs"
proof -
  let ?n = "length exprs"
  let ?I = "\<lambda>st. length (fst st) = ?n \<and> length (fst (snd st)) = ?n
                \<and> length (fst (snd (snd st))) = ?n"
  have "?I (es, xp, deps, ai)"
  proof (rule for_loop_Inr [where I = ?I,
        OF assms [unfolded first_loop_def]])
    show "?I (exprs, replicate ?n None, replicate ?n {}, True)" by simp
  next
    fix i and s s' :: prover_state
    assume I: "?I s"
      and b: "convert_element ext f (map (canonical_arg ext) lhs_args) xn i s = Inr s'"
    obtain es1 xp1 d1 a1 where s: "s = (es1, xp1, d1, a1)" by (cases s) auto
    obtain es2 xp2 d2 a2 where s': "s' = (es2, xp2, d2, a2)" by (cases s') auto
    from convert_element_lengths [OF b [unfolded s s']] I s s' show "?I s'" by simp
  qed
  then show ?thesis by simp
qed

lemma prove_with_names_early:
  assumes "first_loop ext f lhs_args xn exprs = Inl r"
  shows "prove_with_names ext f lhs_args exprs xn yn = r"
  using assms by (simp add: prove_with_names_def first_loop_def Let_def)

lemma prove_with_names_elements:
  assumes "first_loop ext f lhs_args xn exprs = Inr (es, xp, deps, ai)"
    and "ai \<or> length exprs = 1"
  shows "prove_with_names ext f lhs_args exprs xn yn
         = finish (for_loop (prove_element ext xn yn xp es) [0..<length exprs]
                     (AssociativeOp_sized (length exprs)))"
  using assms
  by (simp add: prove_with_names_def first_loop_def Let_def add_transitive_dependencies_one_pass)

lemma prove_with_names_subgraphs:
  assumes "first_loop ext f lhs_args xn exprs = Inr (es, xp, deps, ai)"
    and "\<not> (ai \<or> length exprs = 1)"
    and "add_transitive_dependencies deps = Some deps'"
  shows "prove_with_names ext f lhs_args exprs xn yn
         = finish (for_loop (prove_subgraph ext xn yn xp es (compute_subgraphs deps'))
                     [0..<length exprs] (AssociativeOp_sized (length exprs)))"
proof -
  have "length (compute_subgraphs deps') = length exprs"
    using first_loop_lengths [OF assms(1)] add_transitive_dependencies_length [OF assms(3)]
    by (simp add: compute_subgraphs_length)
  with assms show ?thesis
    by (simp add: prove_with_names_def first_loop_def Let_def)
qed

lemma for_loop_append:
  "for_loop body (idxs @ idxs') s
   = (case for_loop body idxs s of Inl r \<Rightarrow> Inl r | Inr s' \<Rightarrow> for_loop body idxs' s')"
  by (induction idxs arbitrary: s) (simp_all split: sum.splits)

lemma for_loop_reached:
  assumes "i < n" "for_loop body [0..<i] s = Inr a" "body i a = Inl r"
  shows "for_loop body [0..<n] s = Inl r"
proof -
  have "[0..<n] = [0..<i] @ [i..<n]"
    using assms(1) upt_add_eq_append [of 0 i "n - i"] by simp
  also have "[i..<n] = i # [Suc i..<n]"
    using assms(1) by (rule upt_conv_Cons)
  finally have "[0..<n] = [0..<i] @ i # [Suc i..<n]" .
  then show ?thesis
    using assms(2,3) by (simp add: for_loop_append)
qed

lemma convert_loop_Inr:
  assumes "for_loop (convert_element ext f la xn) idxs (es, xp, deps, ai) = Inr st'"
    and "distinct idxs" "idx \<in> set idxs"
    and "\<forall>k\<in>set idxs. es ! k = exprs ! k"
  shows "is_solvable (snd (mutate (prepare_expr ext (exprs ! idx)) (ConvertSelfRef_init f la idx xn)))"
  using assms
proof (induction idxs arbitrary: es xp deps ai)
  case Nil
  then show ?case by simp
next
  case (Cons i rest)
  from Cons.prems(1) obtain st1 where
    b: "convert_element ext f la xn i (es, xp, deps, ai) = Inr st1"
    and rest: "for_loop (convert_element ext f la xn) rest st1 = Inr st'"
    by (cases "convert_element ext f la xn i (es, xp, deps, ai)") auto
  obtain es1 xp1 d1 a1 where st1: "st1 = (es1, xp1, d1, a1)" by (cases st1) auto
  show ?case
  proof (cases "idx = i")
    case True
    from b have "is_solvable (snd (mutate (prepare_expr ext (es ! i)) (ConvertSelfRef_init f la i xn)))"
      by (auto simp: convert_element_def Let_def split_beta split: if_splits)
    with True Cons.prems(4) show ?thesis by simp
  next
    case False
    then have in_rest: "idx \<in> set rest" using Cons.prems(3) by simp
    have keep: "\<forall>k\<in>set rest. es1 ! k = exprs ! k"
    proof
      fix k assume k: "k \<in> set rest"
      then have "k \<noteq> i" using Cons.prems(2) by auto
      then have "es1 ! k = es ! k"
        using b st1 by (intro convert_element_exprs) auto
      then show "es1 ! k = exprs ! k"
        using Cons.prems(4) k by simp
    qed
    show ?thesis
      using rest [unfolded st1] Cons.prems(2) in_rest keep by (intro Cons.IH) simp_all
  qed
qed

lemma first_loop_solvable:
  assumes "first_loop ext f lhs_args xn exprs = Inr st" "idx < length exprs"
  shows "is_solvable (rewriter_state ext f lhs_args xn exprs idx)"
  unfolding rewriter_state_def
  using assms by (intro convert_loop_Inr [OF assms(1) [unfolded first_loop_def]]) simp_all

lemma first_loop_Inl:
  assumes "first_loop ext f lhs_args xn exprs = Inl r"
  shows "r = Aborted \<or> r = Returned AssociativeOp_default"
  using for_loop_Inl [OF assms [unfolded first_loop_def]] convert_element_Inl by blast

lemma convert_loop_unsolvable:
  assumes "distinct idxs" "idx \<in> set idxs"
    and "\<forall>k\<in>set idxs. es ! k = exprs ! k"
    and "\<forall>k\<in>set idxs. \<not> assert_failed (snd (mutate (prepare_expr ext (exprs ! k))
            (ConvertSelfRef_init f la k xn)))"
    and "\<not> is_solvable (snd (mutate (prepare_expr ext (exprs ! idx))
            (ConvertSelfRef_init f la idx xn)))"
  shows "for_loop (convert_element ext f la xn) idxs (es, xp, deps, ai)
         = Inl (Returned AssociativeOp_default)"
  using assms
proof (induction idxs arbitrary: es xp deps ai)
  case Nil
  then show ?case by simp
next
  case (Cons i rest)
  let ?csr = "snd (mutate (prepare_expr ext (es ! i)) (ConvertSelfRef_init f la i xn))"
  have ei: "es ! i = exprs ! i"
    using Cons.prems(3) by simp
  have na: "\<not> assert_failed ?csr"
    using Cons.prems(4) ei by simp
  show ?case
  proof (cases "convert_element ext f la xn i (es, xp, deps, ai)")
    case (Inl r)
    then have "r = Returned AssociativeOp_default"
      using convert_element_Inl [OF Inl] convert_element_no_abort [OF na] by auto
    with Inl show ?thesis by simp
  next
    case (Inr st')
    obtain es' xp' deps' ai' where st': "st' = (es', xp', deps', ai')"
      by (cases st') auto
    have "idx \<noteq> i"
    proof
      assume "idx = i"
      then have "\<not> is_solvable ?csr"
        using Cons.prems(5) ei by simp
      then have "convert_element ext f la xn i (es, xp, deps, ai)
                 = Inl (Returned AssociativeOp_default)"
        using na by (intro convert_element_early)
      with Inr show False by simp
    qed
    then have in_rest: "idx \<in> set rest"
      using Cons.prems(2) by simp
    have keep: "\<forall>k\<in>set rest. es' ! k = exprs ! k"
    proof
      fix k assume k: "k \<in> set rest"
      then have "k \<noteq> i" using Cons.prems(1) by auto
      then have "es' ! k = es ! k"
        using Inr st' by (intro convert_element_exprs) auto
      then show "es' ! k = exprs ! k"
        using Cons.prems(3) k by simp
    qed
    have "for_loop (convert_element ext f la xn) rest (es', xp', deps', ai')
          = Inl (Returned AssociativeOp_default)"
      using Cons.prems(1,4,5) in_rest keep by (intro Cons.IH) simp_all
    then show ?thesis
      using Inr st' by simp
  qed
qed

lemma prove_with_names_unsolvable:
  assumes "idx < length exprs"
    and "\<forall>k<length exprs. \<not> assert_failed (rewriter_state ext f lhs_args x_names exprs k)"
    and "\<not> is_solvable (rewriter_state ext f lhs_args x_names exprs idx)"
  shows "prove_with_names ext f lhs_args exprs x_names y_names = Returned AssociativeOp_default"
proof -
  have "for_loop (convert_element ext f (map (canonical_arg ext) lhs_args) x_names)
          (rev [0..<length exprs])
          (exprs, replicate (length exprs) None, replicate (length exprs) {}, True)
        = Inl (Returned AssociativeOp_default)"
    using assms by (intro convert_loop_unsolvable) (simp_all add: rewriter_state_def)
  then show ?thesis
    by (simp add: prove_with_names_def Let_def)
qed

lemma prove_element_no_match:
  assumes "extract_associative_op_single_element ext idx xn yn (xp ! idx) (es ! idx) a
           = Returned ((False, c), a')"
  shows "prove_element ext xn yn xp es idx a = Inl (Returned AssociativeOp_default)"
  using assms by (simp add: prove_element_def)

lemma prove_subgraph_too_large:
  assumes "2 < card (subgraphs ! i)"
  shows "prove_subgraph ext xn yn xp es subgraphs i a = Inl (Returned AssociativeOp_default)"
proof -
  from assms have "subgraphs ! i \<noteq> {}" by auto
  with assms show ?thesis by (simp add: prove_subgraph_def)
qed

lemma prove_subgraph_no_match:
  assumes "subgraphs ! i \<noteq> {}" "\<not> 2 < card (subgraphs ! i)"
    and "get_subvector es (subgraphs ! i) = Returned sub_exprs"
    and "get_subvector xn (subgraphs ! i) = Returned sub_xn"
    and "get_subvector yn (subgraphs ! i) = Returned sub_yn"
    and "get_subvector xp (subgraphs ! i) = Returned sub_xp"
    and "find_match ext (get_ops_table ext sub_exprs) sub_xn sub_yn sub_xp sub_exprs
           (AssociativeOp_sized (length sub_exprs)) = Returned (False, sub_a)"
  shows "prove_subgraph ext xn yn xp es subgraphs i a = Inl (Returned AssociativeOp_default)"
  unfolding prove_subgraph_unfold [OF assms(1-6)] using assms(7) by simp

lemma prove_subgraph_conflict:
  assumes "subgraphs ! i \<noteq> {}" "\<not> 2 < card (subgraphs ! i)"
    and "get_subvector es (subgraphs ! i) = Returned sub_exprs"
    and "get_subvector xn (subgraphs ! i) = Returned sub_xn"
    and "get_subvector yn (subgraphs ! i) = Returned sub_yn"
    and "get_subvector xp (subgraphs ! i) = Returned sub_xp"
    and "find_match ext (get_ops_table ext sub_exprs) sub_xn sub_yn sub_xp sub_exprs
           (AssociativeOp_sized (length sub_exprs)) = Returned (True, sub_a)"
    and "merge_subgraph (zip (sorted_list_of_set (subgraphs ! i)) [0..<card (subgraphs ! i)])
           sub_a a = None"
  shows "prove_subgraph ext xn yn xp es subgraphs i a = Inl (Returned AssociativeOp_default)"
  unfolding prove_subgraph_unfold [OF assms(1-6)] using assms(7,8) by simp

subsection \<open>The failure modes\<close>

lemma prove_with_names_rejected:
  assumes "idx < length exprs"
    and "\<not> is_solvable (rewriter_state ext f lhs_args xn exprs idx)"
  shows "prove_with_names ext f lhs_args exprs xn yn = Returned AssociativeOp_default
         \<or> prove_with_names ext f lhs_args exprs xn yn = Aborted"
proof (cases "first_loop ext f lhs_args xn exprs")
  case (Inl r)
  from first_loop_Inl [OF Inl] prove_with_names_early [OF Inl, of yn] show ?thesis by auto
next
  case (Inr st)
  from first_loop_solvable [OF Inr assms(1)] assms(2) show ?thesis by simp
qed

lemma prove_with_names_rejected_well_formed:
  assumes "idx < length exprs"
    and "\<forall>k<length exprs. calls_well_formed f (length lhs_args) (length xn)
           (prepare_expr ext (exprs ! k))"
    and "\<not> is_solvable (rewriter_state ext f lhs_args xn exprs idx)"
  shows "prove_with_names ext f lhs_args exprs xn yn = Returned AssociativeOp_default"
proof (rule prove_with_names_unsolvable [OF assms(1) _ assms(3)])
  show "\<forall>k<length exprs. \<not> assert_failed (rewriter_state ext f lhs_args xn exprs k)"
  proof (intro allI impI)
    fix k assume "k < length exprs"
    with assms(2) show "\<not> assert_failed (rewriter_state ext f lhs_args xn exprs k)"
      unfolding rewriter_state_def by (intro mutate_no_assert) simp_all
  qed
qed

lemma prove_with_names_no_operator:
  assumes "first_loop ext f lhs_args xn exprs = Inr (es, xp, deps, ai)"
    and "ai \<or> length exprs = 1"
    and "idx < length exprs"
    and "for_loop (prove_element ext xn yn xp es) [0..<idx] (AssociativeOp_sized (length exprs))
         = Inr a"
    and "extract_associative_op_single_element ext idx xn yn (xp ! idx) (es ! idx) a
         = Returned ((False, c), a')"
  shows "prove_with_names ext f lhs_args exprs xn yn = Returned AssociativeOp_default"
proof -
  have "for_loop (prove_element ext xn yn xp es) [0..<length exprs]
          (AssociativeOp_sized (length exprs)) = Inl (Returned AssociativeOp_default)"
    using assms(3,4) prove_element_no_match [OF assms(5)] by (rule for_loop_reached)
  then show ?thesis
    unfolding prove_with_names_elements [OF assms(1,2)] by (simp add: finish_def)
qed

lemma prove_with_names_subgraph_fails:
  assumes "first_loop ext f lhs_args xn exprs = Inr (es, xp, deps, ai)"
    and "\<not> (ai \<or> length exprs = 1)"
    and "add_transitive_dependencies deps = Some deps'"
    and "i < length exprs"
    and "for_loop (prove_subgraph ext xn yn xp es (compute_subgraphs deps')) [0..<i]
           (AssociativeOp_sized (length exprs)) = Inr a"
    and "prove_subgraph ext xn yn xp es (compute_subgraphs deps') i a
         = Inl (Returned AssociativeOp_default)"
  shows "prove_with_names ext f lhs_args exprs xn yn = Returned AssociativeOp_default"
proof -
  have "for_loop (prove_subgraph ext xn yn xp es (compute_subgraphs deps')) [0..<length exprs]
          (AssociativeOp_sized (length exprs)) = Inl (Returned AssociativeOp_default)"
    using assms(4,5,6) by (rule for_loop_reached)
  then show ?thesis
    unfolding prove_with_names_subgraphs [OF assms(1,2,3)] by (simp add: finish_def)
qed

text \<open>
  Claim C7, amended. The prover never loops forever, and what it returns is the default
  result or an associative result with all its entries. A run either stops on an internal
  assertion (or on the undefined binding that the table matcher dereferences), or each
  failure mode it reaches makes \<^verbatim>\<open>prove_associativity\<close> return exactly the default result:

  \<^item> an element that the rewriter reports unsolvable (an unsolvable or conditional
    self-reference, a self-call with other arguments): the result is the default or the run
    has stopped, and it is the default when the self-calls of all elements are well formed;
  \<^item> an element for which the extractor finds no operator, reached after the elements before
    it were proved;
  \<^item> a subgraph of more than two indices, a subgraph for which the table has no match, and a
    subgraph whose result conflicts with what an earlier subgraph wrote, each reached after
    the subgraphs before it were proved.
\<close>

theorem failure_modes_end_in_default:
  "fst (prove_associativity ext unique_name f lhs_args exprs g) \<noteq> Diverged
   \<and> (\<forall>r. fst (prove_associativity ext unique_name f lhs_args exprs g) = Returned r
         \<longrightarrow> r = AssociativeOp_default \<or> is_associative r \<and> sized (length exprs) r)
   \<and> (\<forall>idx<length exprs.
         \<not> is_solvable (rewriter_state ext f lhs_args
                          (drawn_x_names unique_name (length exprs) g) exprs idx)
         \<longrightarrow> (fst (prove_associativity ext unique_name f lhs_args exprs g)
               = Returned AssociativeOp_default
              \<or> fst (prove_associativity ext unique_name f lhs_args exprs g) = Aborted)
             \<and> ((\<forall>k<length exprs. calls_well_formed f (length lhs_args) (length exprs)
                                     (prepare_expr ext (exprs ! k)))
                 \<longrightarrow> fst (prove_associativity ext unique_name f lhs_args exprs g)
                     = Returned AssociativeOp_default))
   \<and> (\<forall>es xp deps ai idx a c a'.
         first_loop ext f lhs_args (drawn_x_names unique_name (length exprs) g) exprs
           = Inr (es, xp, deps, ai)
         \<and> (ai \<or> length exprs = 1) \<and> idx < length exprs
         \<and> for_loop (prove_element ext (drawn_x_names unique_name (length exprs) g)
                        (drawn_y_names unique_name (length exprs) g) xp es)
              [0..<idx] (AssociativeOp_sized (length exprs)) = Inr a
         \<and> extract_associative_op_single_element ext idx
              (drawn_x_names unique_name (length exprs) g)
              (drawn_y_names unique_name (length exprs) g) (xp ! idx) (es ! idx) a
            = Returned ((False, c), a')
         \<longrightarrow> fst (prove_associativity ext unique_name f lhs_args exprs g)
             = Returned AssociativeOp_default)
   \<and> (\<forall>es xp deps ai deps' i a.
         first_loop ext f lhs_args (drawn_x_names unique_name (length exprs) g) exprs
           = Inr (es, xp, deps, ai)
         \<and> \<not> (ai \<or> length exprs = 1) \<and> add_transitive_dependencies deps = Some deps'
         \<and> i < length exprs
         \<and> for_loop (prove_subgraph ext (drawn_x_names unique_name (length exprs) g)
                        (drawn_y_names unique_name (length exprs) g) xp es
                        (compute_subgraphs deps'))
              [0..<i] (AssociativeOp_sized (length exprs)) = Inr a
         \<and> 2 < card (compute_subgraphs deps' ! i)
         \<longrightarrow> fst (prove_associativity ext unique_name f lhs_args exprs g)
             = Returned AssociativeOp_default)
   \<and> (\<forall>es xp deps ai deps' i a sub_exprs sub_xn sub_yn sub_xp sub_a.
         first_loop ext f lhs_args (drawn_x_names unique_name (length exprs) g) exprs
           = Inr (es, xp, deps, ai)
         \<and> \<not> (ai \<or> length exprs = 1) \<and> add_transitive_dependencies deps = Some deps'
         \<and> i < length exprs
         \<and> for_loop (prove_subgraph ext (drawn_x_names unique_name (length exprs) g)
                        (drawn_y_names unique_name (length exprs) g) xp es
                        (compute_subgraphs deps'))
              [0..<i] (AssociativeOp_sized (length exprs)) = Inr a
         \<and> compute_subgraphs deps' ! i \<noteq> {} \<and> \<not> 2 < card (compute_subgraphs deps' ! i)
         \<and> get_subvector es (compute_subgraphs deps' ! i) = Returned sub_exprs
         \<and> get_subvector (drawn_x_names unique_name (length exprs) g)
              (compute_subgraphs deps' ! i) = Returned sub_xn
         \<and> get_subvector (drawn_y_names unique_name (length exprs) g)
              (compute_subgraphs deps' ! i) = Returned sub_yn
         \<and> get_subvector xp (compute_subgraphs deps' ! i) = Returned sub_xp
         \<and> (find_match ext (get_ops_table ext sub_exprs) sub_xn sub_yn sub_xp sub_exprs
               (AssociativeOp_sized (length sub_exprs)) = Returned (False, sub_a)
             \<or> find_match ext (get_ops_table ext sub_exprs) sub_xn sub_yn sub_xp sub_exprs
                 (AssociativeOp_sized (length sub_exprs)) = Returned (True, sub_a)
               \<and> merge_subgraph
                    (zip (sorted_list_of_set (compute_subgraphs deps' ! i))
                       [0..<card (compute_subgraphs deps' ! i)])
                    sub_a a = None)
         \<longrightarrow> fst (prove_associativity ext unique_name f lhs_args exprs g)
             = Returned AssociativeOp_default)"
proof -
  let ?n = "length exprs"
  let ?xn = "drawn_x_names unique_name ?n g"
  let ?yn = "drawn_y_names unique_name ?n g"
  let ?P = "fst (prove_associativity ext unique_name f lhs_args exprs g)"
  note eq = prove_associativity_names [of ext unique_name f lhs_args exprs g]
  have len: "length ?xn = ?n"
    using fresh_names_length [of unique_name "[0..<?n]" g] by (simp add: drawn_x_names_def)
  note r = prove_with_names_result [of ext f lhs_args exprs ?xn ?yn]
  have 1: "?P \<noteq> Diverged"
    unfolding eq using r by auto
  have 2: "\<forall>r. ?P = Returned r
             \<longrightarrow> r = AssociativeOp_default \<or> is_associative r \<and> sized ?n r"
    unfolding eq using r by auto
  have 3: "\<forall>idx<?n. \<not> is_solvable (rewriter_state ext f lhs_args ?xn exprs idx)
         \<longrightarrow> (?P = Returned AssociativeOp_default \<or> ?P = Aborted)
             \<and> ((\<forall>k<?n. calls_well_formed f (length lhs_args) ?n (prepare_expr ext (exprs ! k)))
                 \<longrightarrow> ?P = Returned AssociativeOp_default)"
  proof (intro allI impI conjI)
    fix idx assume i: "idx < ?n"
      and u: "\<not> is_solvable (rewriter_state ext f lhs_args ?xn exprs idx)"
    from prove_with_names_rejected [OF i u, of ?yn]
    show "?P = Returned AssociativeOp_default \<or> ?P = Aborted"
      unfolding eq .
    assume "\<forall>k<?n. calls_well_formed f (length lhs_args) ?n (prepare_expr ext (exprs ! k))"
    then have "\<forall>k<?n. calls_well_formed f (length lhs_args) (length ?xn)
                 (prepare_expr ext (exprs ! k))"
      unfolding len .
    from prove_with_names_rejected_well_formed [OF i this u, of ?yn]
    show "?P = Returned AssociativeOp_default"
      unfolding eq .
  qed
  have 4: "\<forall>es xp deps ai idx a c a'.
         first_loop ext f lhs_args ?xn exprs = Inr (es, xp, deps, ai)
         \<and> (ai \<or> ?n = 1) \<and> idx < ?n
         \<and> for_loop (prove_element ext ?xn ?yn xp es) [0..<idx] (AssociativeOp_sized ?n) = Inr a
         \<and> extract_associative_op_single_element ext idx ?xn ?yn (xp ! idx) (es ! idx) a
            = Returned ((False, c), a')
         \<longrightarrow> ?P = Returned AssociativeOp_default"
    unfolding eq by (intro allI impI, elim conjE) (rule prove_with_names_no_operator)
  have 5: "\<forall>es xp deps ai deps' i a.
         first_loop ext f lhs_args ?xn exprs = Inr (es, xp, deps, ai)
         \<and> \<not> (ai \<or> ?n = 1) \<and> add_transitive_dependencies deps = Some deps'
         \<and> i < ?n
         \<and> for_loop (prove_subgraph ext ?xn ?yn xp es (compute_subgraphs deps'))
              [0..<i] (AssociativeOp_sized ?n) = Inr a
         \<and> 2 < card (compute_subgraphs deps' ! i)
         \<longrightarrow> ?P = Returned AssociativeOp_default"
  proof (intro allI impI, elim conjE)
    fix es :: "Expr list" and xp :: "Expr option list" and deps deps' :: "nat set list"
      and ai :: bool and i :: nat and a :: AssociativeOp
    assume h: "first_loop ext f lhs_args ?xn exprs = Inr (es, xp, deps, ai)"
      "\<not> (ai \<or> ?n = 1)" "add_transitive_dependencies deps = Some deps'" "i < ?n"
      "for_loop (prove_subgraph ext ?xn ?yn xp es (compute_subgraphs deps'))
              [0..<i] (AssociativeOp_sized ?n) = Inr a"
      and big: "2 < card (compute_subgraphs deps' ! i)"
    from h prove_subgraph_too_large [OF big, of ext ?xn ?yn xp es a]
    show "?P = Returned AssociativeOp_default"
      unfolding eq by (rule prove_with_names_subgraph_fails)
  qed
  have 6: "\<forall>es xp deps ai deps' i a sub_exprs sub_xn sub_yn sub_xp sub_a.
         first_loop ext f lhs_args ?xn exprs = Inr (es, xp, deps, ai)
         \<and> \<not> (ai \<or> ?n = 1) \<and> add_transitive_dependencies deps = Some deps'
         \<and> i < ?n
         \<and> for_loop (prove_subgraph ext ?xn ?yn xp es (compute_subgraphs deps'))
              [0..<i] (AssociativeOp_sized ?n) = Inr a
         \<and> compute_subgraphs deps' ! i \<noteq> {} \<and> \<not> 2 < card (compute_subgraphs deps' ! i)
         \<and> get_subvector es (compute_subgraphs deps' ! i) = Returned sub_exprs
         \<and> get_subvector ?xn (compute_subgraphs deps' ! i) = Returned sub_xn
         \<and> get_subvector ?yn (compute_subgraphs deps' ! i) = Returned sub_yn
         \<and> get_subvector xp (compute_subgraphs deps' ! i) = Returned sub_xp
         \<and> (find_match ext (get_ops_table ext sub_exprs) sub_xn sub_yn sub_xp sub_exprs
               (AssociativeOp_sized (length sub_exprs)) = Returned (False, sub_a)
             \<or> find_match ext (get_ops_table ext sub_exprs) sub_xn sub_yn sub_xp sub_exprs
                 (AssociativeOp_sized (length sub_exprs)) = Returned (True, sub_a)
               \<and> merge_subgraph
                    (zip (sorted_list_of_set (compute_subgraphs deps' ! i))
                       [0..<card (compute_subgraphs deps' ! i)])
                    sub_a a = None)
         \<longrightarrow> ?P = Returned AssociativeOp_default"
  proof (intro allI impI, elim conjE)
    fix es sub_exprs :: "Expr list" and xp sub_xp :: "Expr option list"
      and deps deps' :: "nat set list" and ai :: bool and i :: nat
      and a sub_a :: AssociativeOp and sub_xn sub_yn :: "string list"
    let ?sg = "compute_subgraphs deps'"
    assume h: "first_loop ext f lhs_args ?xn exprs = Inr (es, xp, deps, ai)"
      "\<not> (ai \<or> ?n = 1)" "add_transitive_dependencies deps = Some deps'" "i < ?n"
      "for_loop (prove_subgraph ext ?xn ?yn xp es ?sg) [0..<i] (AssociativeOp_sized ?n) = Inr a"
      and s: "?sg ! i \<noteq> {}" "\<not> 2 < card (?sg ! i)"
      "get_subvector es (?sg ! i) = Returned sub_exprs"
      "get_subvector ?xn (?sg ! i) = Returned sub_xn"
      "get_subvector ?yn (?sg ! i) = Returned sub_yn"
      "get_subvector xp (?sg ! i) = Returned sub_xp"
      and m: "find_match ext (get_ops_table ext sub_exprs) sub_xn sub_yn sub_xp sub_exprs
               (AssociativeOp_sized (length sub_exprs)) = Returned (False, sub_a)
             \<or> find_match ext (get_ops_table ext sub_exprs) sub_xn sub_yn sub_xp sub_exprs
                 (AssociativeOp_sized (length sub_exprs)) = Returned (True, sub_a)
               \<and> merge_subgraph (zip (sorted_list_of_set (?sg ! i)) [0..<card (?sg ! i)])
                    sub_a a = None"
    have "prove_subgraph ext ?xn ?yn xp es ?sg i a = Inl (Returned AssociativeOp_default)"
      using m
    proof (elim disjE conjE)
      assume "find_match ext (get_ops_table ext sub_exprs) sub_xn sub_yn sub_xp sub_exprs
               (AssociativeOp_sized (length sub_exprs)) = Returned (False, sub_a)"
      with s show ?thesis by (rule prove_subgraph_no_match)
    next
      assume "find_match ext (get_ops_table ext sub_exprs) sub_xn sub_yn sub_xp sub_exprs
                 (AssociativeOp_sized (length sub_exprs)) = Returned (True, sub_a)"
        "merge_subgraph (zip (sorted_list_of_set (?sg ! i)) [0..<card (?sg ! i)]) sub_a a = None"
      with s show ?thesis by (rule prove_subgraph_conflict)
    qed
    with h show "?P = Returned AssociativeOp_default"
      unfolding eq by (rule prove_with_names_subgraph_fails)
  qed
  show ?thesis
    using 1 2 3 4 5 6 by (intro conjI)
qed

theorem failure_modes_end_in_default_witness:
  "fst (prove_associativity test_externals counter_name ''f'' [lhs_x]
          [Bin Add (call_f 0) (Call i32 ''f'' [var_rx] Halide False 0)] (0::nat))
     = Returned AssociativeOp_default
   \<and> fst (prove_associativity test_externals counter_name ''f'' [lhs_x]
          [Bin Add (call_f 0) (Bin Add (call_f 1) (call_f 2)),
           Bin Add (call_f 1) (call_g 0), Bin Add (call_f 2) (call_g 0)] (0::nat))
     = Returned AssociativeOp_default"
proof -
  let ?e = "Bin Add (call_f 0) (Call i32 ''f'' [var_rx] Halide False 0)"
  have p: "prepare_expr test_externals e = e" for e
    by (simp add: prepare_expr_def test_externals_def)
  have u: "\<not> is_solvable (rewriter_state test_externals ''f'' [lhs_x]
                 (drawn_x_names counter_name (length [?e]) 0) [?e] 0)"
    by code_simp
  have w: "\<forall>k<length [?e]. calls_well_formed ''f'' (length [lhs_x]) (length [?e])
             (prepare_expr test_externals ([?e] ! k))"
    by (simp add: p call_f_def lhs_x_def var_rx_def)
  note t1 = failure_modes_end_in_default [of test_externals counter_name "''f''" "[lhs_x]"
      "[?e]" "0::nat", THEN conjunct2, THEN conjunct2, THEN conjunct1, rule_format, of 0]
  have 1: "fst (prove_associativity test_externals counter_name ''f'' [lhs_x] [?e] (0::nat))
           = Returned AssociativeOp_default"
    using t1 u w by simp
  let ?es3 = "[Bin Add (call_f 0) (Bin Add (call_f 1) (call_f 2)),
               Bin Add (call_f 1) (call_g 0), Bin Add (call_f 2) (call_g 0)]"
  let ?xn = "drawn_x_names counter_name (length ?es3) (0::nat)"
  let ?yn = "drawn_y_names counter_name (length ?es3) (0::nat)"
  let ?es = "[Bin Add (Variable i32 ''_x_0$0'')
                (Bin Add (Variable i32 ''_x_1$2'') (Variable i32 ''_x_2$4'')),
              Bin Add (Variable i32 ''_x_1$2'') (call_g 0),
              Bin Add (Variable i32 ''_x_2$4'') (call_g 0)]"
  let ?xp = "[Some (call_f 0), Some (call_f 1), Some (call_f 2)]"
  let ?deps = "[{0, 1, 2}, {1}, {2::nat}]"
  have a: "first_loop test_externals ''f'' [lhs_x] ?xn ?es3 = Inr (?es, ?xp, ?deps, False)"
    by code_simp
  have b: "\<not> (False \<or> length ?es3 = 1)"
    by simp
  have c: "add_transitive_dependencies ?deps = Some ?deps"
    by code_simp
  have d: "(0::nat) < length ?es3"
    by simp
  have e: "for_loop (prove_subgraph test_externals ?xn ?yn ?xp ?es (compute_subgraphs ?deps))
             [0..<0] (AssociativeOp_sized (length ?es3)) = Inr (AssociativeOp_sized (length ?es3))"
    by simp
  have f: "2 < card (compute_subgraphs ?deps ! 0)"
    by code_simp
  note t2 = failure_modes_end_in_default [of test_externals counter_name "''f''" "[lhs_x]"
      ?es3 "0::nat", THEN conjunct2, THEN conjunct2, THEN conjunct2, THEN conjunct2,
      THEN conjunct1, rule_format, of ?es ?xp ?deps False ?deps 0
      "AssociativeOp_sized (length ?es3)"]
  have 2: "fst (prove_associativity test_externals counter_name ''f'' [lhs_x] ?es3 (0::nat))
           = Returned AssociativeOp_default"
    by (rule t2) (intro conjI a b c d e f)
  show ?thesis
    by (rule conjI [OF 1 2])
qed

text \<open>
  Claim C7 as stated lets no failure mode abort. A self-call with two arguments, where the
  left-hand side has one, is a self-call with different arguments: the rewriter asserts that
  the numbers of arguments agree, and the run stops there.
\<close>

theorem ill_formed_self_call_aborts:
  "fst (prove_associativity test_externals counter_name ''f'' [lhs_x]
          [Bin Add (Call i32 ''f'' [lhs_x, lhs_x] Halide False 0) (call_g 0)] (0::nat))
   = Aborted"
  by code_simp

section \<open>Independence of the \<open>y\<close> parts from the \<open>x\<close> variables\<close>

subsection \<open>The table matcher\<close>

lemma merge_matches_lookup:
  "merge_matches result m = Some m' \<Longrightarrow> map_of m' k = Some v
   \<Longrightarrow> map_of m k = Some v \<or> (map_of m k = None \<and> map_of result k = Some v)"
proof (induction result arbitrary: m)
  case Nil
  then show ?case by simp
next
  case (Cons kv rest)
  obtain k0 v0 where kv: "kv = (k0, v0)" by (cases kv) auto
  show ?case
  proof (cases "map_of m k0")
    case None
    with Cons.prems kv have rec: "merge_matches rest (m @ [(k0, v0)]) = Some m'"
      by simp
    from Cons.IH [OF rec Cons.prems(2)] show ?thesis
    proof (elim disjE conjE)
      assume "map_of (m @ [(k0, v0)]) k = Some v"
      then show ?thesis
        using None kv by (auto simp: map_add_def split: option.splits if_splits)
    next
      assume "map_of (m @ [(k0, v0)]) k = None" "map_of rest k = Some v"
      then show ?thesis
        using None kv by (auto simp: map_add_def split: option.splits if_splits)
    qed
  next
    case (Some v')
    with Cons.prems kv have rec: "merge_matches rest m = Some m'"
      by (simp split: if_splits)
    from Cons.IH [OF rec Cons.prems(2)] show ?thesis
      using Some kv by auto
  qed
qed

lemma y_check:
  assumes "\<not> list_ex (y_part_uses_x result scope) [0..<n]" "j < n"
    "map_of result (''y'' @ to_string j) = Some y"
  shows "\<not> expr_uses_vars y scope"
proof -
  from assms(1,2) have "\<not> y_part_uses_x result scope j"
    by (simp add: list_ex_iff)
  with assms(3) show ?thesis
    by (simp add: y_part_uses_x_def)
qed

lemma associative_op_pattern_match_ok:
  assumes "associative_op_pattern_match ext e op xn yn xn m = Returned (Some m')"
    and "ok_match xn yn m"
  shows "ok_match xn yn m'"
proof -
  from assms(1) obtain result where
    r: "expr_match ext op e = Some result"
    and chk: "\<not> list_ex (y_part_uses_x result xn) [0..<length yn]"
    and mm: "merge_matches result m = Some m'"
    by (auto simp: associative_op_pattern_match_def split: option.splits if_splits)
  show ?thesis
    unfolding ok_match_def
  proof (intro allI impI)
    fix j y assume j: "j < length yn" and y: "map_of m' (''y'' @ to_string j) = Some y"
    from merge_matches_lookup [OF mm y]
    show "\<not> expr_uses_vars y xn"
      using assms(2) j y_check [OF chk j] by (auto simp: ok_match_def)
  qed
qed

lemma match_ops_ok:
  assumes "match_ops ext exprs pops xn yn idxs m = Returned (Some m')" "ok_match xn yn m"
  shows "ok_match xn yn m'"
  using assms
proof (induction idxs arbitrary: m)
  case Nil
  then show ?case by simp
next
  case (Cons i rest)
  from Cons.prems(1) obtain op m1 where
    "pops ! i = Some op"
    and m1: "associative_op_pattern_match ext (exprs ! i) op xn yn xn m = Returned (Some m1)"
    and rec: "match_ops ext exprs pops xn yn rest m1 = Returned (Some m')"
    by (auto split: option.splits outcome.splits)
  from associative_op_pattern_match_ok [OF m1 Cons.prems(2)] rec show ?case
    by (rule Cons.IH [rotated])
qed

lemma ok_match_empty: "ok_match xn yn []"
  by (simp add: ok_match_def)

lemma collect_replacement_other_xs:
  "i \<notin> set idxs
   \<Longrightarrow> xs (fst (snd (collect_replacement pm xn yn xp idxs a r))) ! i = xs a ! i"
  by (induction idxs arbitrary: a r) (auto split: option.splits)

lemma collect_replacement_xs:
  assumes "collect_replacement pm xn yn xp idxs a r = (True, a', r')"
    and "distinct idxs" "i \<in> set idxs" "i < length (xs a)"
  shows "xs a' ! i = \<lparr>var = xn ! i, expr = xp ! i\<rparr>"
  using assms
proof (induction idxs arbitrary: a r)
  case Nil
  then show ?case by simp
next
  case (Cons k idxs)
  from Cons.prems(1) obtain y_part where
    y: "map_of pm (''y'' @ to_string k) = Some y_part"
    by (cases "map_of pm (''y'' @ to_string k)") auto
  let ?a1 = "set_y k \<lparr>var = yn ! k, expr = Some y_part\<rparr>
               (set_x k \<lparr>var = xn ! k, expr = xp ! k\<rparr> a)"
  let ?r1 = "r @ [(y_part, Variable (type_of y_part) (yn ! k))]"
  from Cons.prems(1) y have rec: "collect_replacement pm xn yn xp idxs ?a1 ?r1 = (True, a', r')"
    by simp
  show ?case
  proof (cases "i = k")
    case True
    then have "i \<notin> set idxs" using Cons.prems(2) by simp
    then have "xs a' ! i = xs ?a1 ! i"
      using collect_replacement_other_xs [of i idxs pm xn yn xp ?a1 ?r1] rec by simp
    then show ?thesis
      using True Cons.prems(4) by simp
  next
    case False
    then show ?thesis
      using Cons.IH [OF rec] Cons.prems(2,3,4) by simp
  qed
qed

lemma collect_replacement_bound:
  assumes "collect_replacement pm xn yn xp idxs a r = (True, a', r')" "i \<in> set idxs"
  shows "map_of pm (''y'' @ to_string i) \<noteq> None"
  using assms
  by (induction idxs arbitrary: a r) (auto split: option.splits)

text \<open>
  What a successful table match writes: at every index the \<open>x\<close> replacement with the name and
  the \<open>x\<close> part of that index, and a \<open>y\<close> replacement with the name of that index whose
  expression uses none of the \<open>x\<close> names of the match.
\<close>

lemma find_match_entries:
  assumes "find_match ext table xn yn xp exprs a = Returned (True, a')"
    and "length (xs a) = length xn" "length (ys a) = length yn"
    and "i < length xn"
  shows "xs a' ! i = \<lparr>var = xn ! i, expr = xp ! i\<rparr>
         \<and> var (ys a' ! i) = yn ! i
         \<and> (\<exists>y. expr (ys a' ! i) = Some y \<and> \<not> expr_uses_vars y xn)"
proof -
  let ?n = "length yn"
  from assms(1) have len: "length xn = length yn"
    and loop: "find_match_loop ext table xn yn xp exprs a = Returned (True, a')"
    by (auto simp: find_match_def split: if_splits)
  from find_match_loop_True [OF loop] obtain pm a0 p where
    a0: "length (ys a0) = length (ys a)" "length (xs a0) = length (xs a)"
    and c: "collect_replacement pm xn yn xp [0..<?n] a0 []
            = (True, fst (snd (collect_replacement pm xn yn xp [0..<?n] a0 [])),
               map (y_replacement pm yn) [0..<?n])"
    and m: "match_ops ext exprs (ops p) xn yn [0..<length (ops p)] [] = Returned (Some pm)"
    and a': "a' = rebuild_ops p exprs (map (y_replacement pm yn) [0..<?n])
                 (fst (snd (collect_replacement pm xn yn xp [0..<?n] a0 [])))"
    by blast
  let ?a1 = "fst (snd (collect_replacement pm xn yn xp [0..<?n] a0 []))"
  have ok: "ok_match xn yn pm"
    using match_ops_ok [OF m ok_match_empty] .
  have xy: "xs a' = xs ?a1" "ys a' = ys ?a1"
    unfolding a' by (simp_all add: rebuild_ops_fields)
  have i: "i < ?n"
    using assms(4) len by simp
  from collect_replacement_bound [OF c, of i] i obtain y where
    y: "map_of pm (''y'' @ to_string i) = Some y" by auto
  have x: "xs ?a1 ! i = \<lparr>var = xn ! i, expr = xp ! i\<rparr>"
    using collect_replacement_xs [OF c, of i] i a0 assms(2) len by simp
  have yy: "ys ?a1 ! i = \<lparr>var = yn ! i, expr = Some y\<rparr>"
    using collect_replacement_ys [OF c, of i] i a0 assms(3) y
    by (simp add: y_replacement_def)
  have "\<not> expr_uses_vars y xn"
    using ok i y by (simp add: ok_match_def)
  with x yy show ?thesis
    unfolding xy by simp
qed

lemma find_match_independent:
  assumes "find_match ext table xn yn xp exprs a = Returned (True, a')"
    and "length (xs a) = length xn" "length (ys a) = length yn"
  shows "y_independent a'"
proof -
  from assms(1) have len: "length xn = length yn"
    and loop: "find_match_loop ext table xn yn xp exprs a = Returned (True, a')"
    by (auto simp: find_match_def split: if_splits)
  from find_match_loop_True [OF loop] obtain pm a0 p where
    a0: "length (ys a0) = length (ys a)" "length (xs a0) = length (xs a)"
    and a': "a' = rebuild_ops p exprs (map (y_replacement pm yn) [0..<length yn])
                 (fst (snd (collect_replacement pm xn yn xp [0..<length yn] a0 [])))"
    by blast
  have l: "length (xs a') = length xn" "length (ys a') = length yn"
    unfolding a'
    using collect_replacement_shape [of pm xn yn xp "[0..<length yn]" a0 "[]"] a0 assms(2,3)
    by (simp_all add: rebuild_ops_fields)
  have "list_all2 y_free_of_x (xs a') (ys a')"
  proof (rule list_all2_all_nthI)
    show "length (xs a') = length (ys a')"
      using l len by simp
  next
    fix j assume "j < length (xs a')"
    then have j: "j < length xn" using l by simp
    from find_match_entries [OF assms j] obtain y where
      x: "xs a' ! j = \<lparr>var = xn ! j, expr = xp ! j\<rparr>"
      and y: "expr (ys a' ! j) = Some y" "\<not> expr_uses_vars y xn"
      by auto
    from y(2) j have "\<not> expr_uses_var y (xn ! j)"
      by (auto simp: expr_uses_vars_def list_ex_iff)
    with x y(1) show "y_free_of_x (xs a' ! j) (ys a' ! j)"
      by (simp add: y_free_of_x_def split: option.splits)
  qed
  then show ?thesis
    by (simp add: y_independent_def)
qed

subsection \<open>The single-element extractor\<close>

lemma y_independent_set [simp]:
  "y_independent (set_op i v a) = y_independent a"
  "y_independent (set_identity i v a) = y_independent a"
  "y_independent (a\<lparr>is_associative := b\<rparr>) = y_independent a"
  by (simp_all add: y_independent_def)

lemma y_independent_update:
  "y_independent a \<Longrightarrow> y_free_of_x rx ry \<Longrightarrow> y_independent (set_y i ry (set_x i rx a))"
  by (simp add: y_independent_def list_all2_update_cong)

lemma y_independent_sized: "y_independent (AssociativeOp_sized n)"
  by (simp add: y_independent_def AssociativeOp_sized_def list_all2_conv_all_nth y_free_of_x_def)

lemma visit_associative_binary_op_cases:
  "visit_associative_binary_op T index op_x op_y xp lhs rhs a = ((False, False), a)
   \<or> (\<not> expr_uses_var rhs op_x
      \<and> fst (fst (visit_associative_binary_op T index op_x op_y xp lhs rhs a))
      \<and> snd (visit_associative_binary_op T index op_x op_y xp lhs rhs a)
          = set_y index \<lparr>var = op_y, expr = Some rhs\<rparr>
              (set_x index \<lparr>var = op_x, expr = xp\<rparr> a))"
  by (simp add: visit_associative_binary_op_def Let_def)

lemma visit_associative_binary_op_independent:
  assumes "visit_associative_binary_op T index op_x op_y xp lhs rhs a = ((True, c), a')"
    and "y_independent a"
  shows "y_independent a'"
proof -
  from visit_associative_binary_op_cases [of T index op_x op_y xp lhs rhs a] assms(1)
  have no_use: "\<not> expr_uses_var rhs op_x"
    and a': "a' = set_y index \<lparr>var = op_y, expr = Some rhs\<rparr>
                    (set_x index \<lparr>var = op_x, expr = xp\<rparr> a)"
    by simp_all
  have "y_free_of_x \<lparr>var = op_x, expr = xp\<rparr> \<lparr>var = op_y, expr = Some rhs\<rparr>"
    using no_use by (simp add: y_free_of_x_def split: option.splits)
  with assms(2) show ?thesis
    unfolding a' by (rule y_independent_update)
qed

lemma visit_associative_binary_op_fail:
  assumes "visit_associative_binary_op T index op_x op_y xp lhs rhs a = ((False, c), a')"
  shows "a' = a"
  using visit_associative_binary_op_cases [of T index op_x op_y xp lhs rhs a] assms
  by auto

lemma builtin_op_independent:
  assumes "builtin_op ext index op_x op_y xp e a = Returned ((ia, c), a')"
    and "y_independent a"
  shows "y_independent a'"
proof (cases e)
  case (Bin b lhs rhs)
  let ?t = "type_of e"
  show ?thesis
  proof (cases "builtin_pattern ext b ?t (Variable ?t op_x) (Variable ?t op_y)")
    case None
    with assms Bin show ?thesis by (simp add: builtin_op_def Let_def)
  next
    case (Some pr)
    obtain op ident where pr: "pr = (op, ident)" by (cases pr) auto
    let ?a0 = "set_identity index (Some ident) (set_op index (Some op) a)"
    from assms(1) Bin Some pr
    have v: "visit_associative_binary_op b index op_x op_y xp lhs rhs ?a0 = ((ia, c), a')"
      by (simp add: builtin_op_def Let_def)
    show ?thesis
    proof (cases ia)
      case True
      have "y_independent ?a0" using assms(2) by simp
      with v True show ?thesis
        by (simp add: visit_associative_binary_op_independent [where a = ?a0])
    next
      case False
      with v have "a' = ?a0" by (simp add: visit_associative_binary_op_fail)
      with assms(2) show ?thesis by simp
    qed
  qed
qed (use assms in \<open>simp_all add: builtin_op_def Let_def\<close>)

lemma table_lookup_independent:
  assumes "table_lookup ext index op_x op_y xp e c a = Returned (res, a')"
    and "y_independent a"
  shows "y_independent a'"
proof (cases "find_match ext (get_ops_table ext [e]) [op_x] [op_y] [xp] [e] (AssociativeOp_sized 1)")
  case (Returned r)
  obtain m tmp where r: "r = (m, tmp)" by (cases r) auto
  show ?thesis
  proof (cases m)
    case False
    with assms Returned r show ?thesis by (simp add: table_lookup_def)
  next
    case True
    have init: "length (xs (AssociativeOp_sized 1)) = length [op_x]"
      "length (ys (AssociativeOp_sized 1)) = length [op_y]"
      by (simp_all add: AssociativeOp_sized_def)
    have "y_independent tmp"
      using Returned r True by (simp add: find_match_independent [OF _ init])
    moreover have "sized 1 tmp"
      using Returned r find_match_sized [where a = "AssociativeOp_sized 1"] by simp
    ultimately have "y_free_of_x (xs tmp ! 0) (ys tmp ! 0)"
      by (simp add: y_independent_def sized_def list_all2_conv_all_nth)
    moreover from assms(1) Returned r True
    have "a' = set_y index (ys tmp ! 0) (set_x index (xs tmp ! 0)
                (set_identity index (identities (pattern tmp) ! 0)
                  (set_op index (ops (pattern tmp) ! 0) a)))"
      by (simp add: table_lookup_def)
    ultimately show ?thesis
      using assms(2) by (simp add: y_independent_update)
  qed
qed (use assms in \<open>simp_all add: table_lookup_def\<close>)

lemma extract_independent:
  assumes "extract_associative_op_single_element ext index xn yn xp e a = Returned (res, a')"
    and "y_independent a"
  shows "y_independent a'"
proof (cases "xp = None")
  case True
  have "y_free_of_x \<lparr>var = [], expr = None\<rparr> \<lparr>var = yn ! index, expr = Some e\<rparr>"
    by (simp add: y_free_of_x_def)
  with assms True show ?thesis
    by (auto simp: extract_associative_op_single_element_def Let_def y_independent_update)
next
  case False
  show ?thesis
  proof (cases "builtin_op ext index (xn ! index) (yn ! index) xp e a")
    case (Returned r)
    obtain ia ic a1 where r: "r = ((ia, ic), a1)" by (cases r) auto
    have a1: "y_independent a1"
      using Returned r assms(2) builtin_op_independent [of ext index "xn ! index" "yn ! index" xp e a ia ic a1]
      by simp
    show ?thesis
    proof (cases "\<not> ia \<and> code (type_of e) = TInt \<and> bits (type_of e) = 32")
      case True
      with assms False Returned r
      have "table_lookup ext index (xn ! index) (yn ! index) xp e ic a1 = Returned (res, a')"
        by (simp add: extract_associative_op_single_element_def Let_def)
      from table_lookup_independent [OF this a1] show ?thesis .
    next
      case no_table: False
      with assms False Returned r have "a' = a1"
        by (auto simp: extract_associative_op_single_element_def Let_def)
      with a1 show ?thesis by simp
    qed
  qed (use assms False in \<open>simp_all add: extract_associative_op_single_element_def Let_def\<close>)
qed

lemma prove_element_independent:
  assumes "prove_element ext xn yn xp es idx a = Inr a'" "y_independent a"
  shows "y_independent a'"
proof (cases "extract_associative_op_single_element ext idx xn yn (xp ! idx) (es ! idx) a")
  case (Returned r)
  obtain res a1 where r: "r = (res, a1)" by (cases r) auto
  from assms(1) Returned r have "a' = a1"
    by (auto simp: prove_element_def split: prod.splits if_splits)
  with extract_independent [of ext idx xn yn "xp ! idx" "es ! idx" a res a1] Returned r assms(2)
  show ?thesis by simp
qed (use assms in \<open>simp_all add: prove_element_def\<close>)


subsection \<open>One subgraph\<close>

lemma get_subvector_Returned:
  assumes "get_subvector v S = Returned l"
  shows "l = map (\<lambda>index. v ! index) (sorted_list_of_set S)
         \<and> (\<forall>k\<in>set (sorted_list_of_set S). k < length v)"
  using assms by (auto simp: get_subvector_def list_all_iff split: if_splits)

text \<open>
  An iteration of the loop over the subgraphs that goes on to the next one either found the
  subgraph empty, or matched the elements of the subgraph against the table and copied the
  result of the match.
\<close>

lemma prove_subgraph_Inr:
  assumes "prove_subgraph ext xn yn xp es subgraphs i a = Inr a'"
  shows "subgraphs ! i = {} \<and> a' = a
     \<or> (\<exists>sub.
          find_match ext
            (get_ops_table ext (map (\<lambda>index. es ! index) (sorted_list_of_set (subgraphs ! i))))
            (map (\<lambda>index. xn ! index) (sorted_list_of_set (subgraphs ! i)))
            (map (\<lambda>index. yn ! index) (sorted_list_of_set (subgraphs ! i)))
            (map (\<lambda>index. xp ! index) (sorted_list_of_set (subgraphs ! i)))
            (map (\<lambda>index. es ! index) (sorted_list_of_set (subgraphs ! i)))
            (AssociativeOp_sized (length (sorted_list_of_set (subgraphs ! i))))
            = Returned (True, sub)
          \<and> merge_subgraph
               (zip (sorted_list_of_set (subgraphs ! i))
                    [0..<length (sorted_list_of_set (subgraphs ! i))]) sub a = Some a'
          \<and> (\<forall>k\<in>set (sorted_list_of_set (subgraphs ! i)). k < length es))"
proof (cases "subgraphs ! i = {}")
  case True
  with assms show ?thesis by (simp add: prove_subgraph_def)
next
  case ne: False
  let ?S = "subgraphs ! i"
  let ?L = "sorted_list_of_set ?S"
  have small: "\<not> 2 < card ?S"
    using assms ne by (auto simp: prove_subgraph_def Let_def split: if_splits)
  have no_abort: "\<not> (get_subvector es ?S = Aborted \<or> get_subvector xn ?S = Aborted
       \<or> get_subvector yn ?S = Aborted \<or> get_subvector xp ?S = Aborted)"
  proof
    assume "get_subvector es ?S = Aborted \<or> get_subvector xn ?S = Aborted
       \<or> get_subvector yn ?S = Aborted \<or> get_subvector xp ?S = Aborted"
    from prove_subgraph_aborts [OF ne small this, of ext a] assms show False by simp
  qed
  let ?se = "map (\<lambda>index. es ! index) ?L"
  let ?sx = "map (\<lambda>index. xn ! index) ?L"
  let ?sy = "map (\<lambda>index. yn ! index) ?L"
  let ?sp = "map (\<lambda>index. xp ! index) ?L"
  have g1: "get_subvector es ?S = Returned ?se"
    using no_abort get_subvector_cases [of es ?S] by simp
  have g2: "get_subvector xn ?S = Returned ?sx"
    using no_abort get_subvector_cases [of xn ?S] by simp
  have g3: "get_subvector yn ?S = Returned ?sy"
    using no_abort get_subvector_cases [of yn ?S] by simp
  have g4: "get_subvector xp ?S = Returned ?sp"
    using no_abort get_subvector_cases [of xp ?S] by simp
  note unfold = prove_subgraph_unfold [OF ne small g1 g2 g3 g4, of ext a]
  let ?fm = "find_match ext (get_ops_table ext ?se) ?sx ?sy ?sp ?se
               (AssociativeOp_sized (length ?se))"
  have bound: "\<forall>k\<in>set ?L. k < length es"
    using get_subvector_Returned [OF g1] by simp
  show ?thesis
  proof (cases ?fm)
    case Diverged
    with unfold assms show ?thesis by simp
  next
    case Aborted
    with unfold assms show ?thesis by simp
  next
    case (Returned r)
    obtain m sub where r: "r = (m, sub)" by (cases r) auto
    show ?thesis
    proof (cases m)
      case False
      with unfold assms Returned r show ?thesis by simp
    next
      case True
      have fm: "?fm = Returned (True, sub)"
        using Returned r True by simp
      have "merge_subgraph (zip ?L [0..<card ?S]) sub a = Some a'"
        using unfold assms fm by (simp split: option.splits)
      with fm bound show ?thesis by auto
    qed
  qed
qed

lemma zip_upt_set:
  "p \<in> set (zip l [0..<length l]) \<longleftrightarrow> (\<exists>t<length l. p = (l ! t, t))"
  by (cases p) (auto simp: in_set_zip)

text \<open>
  What the copy loop leaves behind: an entry outside the subgraph is as before, an entry of the
  subgraph is that of the match, and where it had a \<open>y\<close> expression before, it had the same
  \<open>y\<close> replacement before.
\<close>

lemma merge_subgraph_entries:
  assumes "merge_subgraph pairs sub a = Some a'"
    and "distinct (map fst pairs)"
    and "\<forall>p\<in>set pairs. fst p < length (xs a) \<and> fst p < length (ys a)"
  shows "(\<forall>k. k \<notin> fst ` set pairs \<longrightarrow> xs a' ! k = xs a ! k \<and> ys a' ! k = ys a ! k)
       \<and> (\<forall>p\<in>set pairs. xs a' ! fst p = xs sub ! snd p \<and> ys a' ! fst p = ys sub ! snd p
             \<and> (expr (ys a ! fst p) \<noteq> None \<longrightarrow> ys a ! fst p = ys sub ! snd p))"
  using assms
proof (induction pairs arbitrary: a)
  case Nil
  then show ?case by simp
next
  case (Cons q rest)
  obtain index j where q: "q = (index, j)" by (cases q) auto
  let ?a1 = "set_y index (ys sub ! j) (set_x index (xs sub ! j)
               (set_identity index (identities (pattern sub) ! j)
                 (set_op index (ops (pattern sub) ! j) a)))"
  from Cons.prems(1) q have rec: "merge_subgraph rest sub ?a1 = Some a'"
    by (simp split: if_splits)
  from Cons.prems(1) q have chk: "expr (ys a ! index) \<noteq> None \<longrightarrow> ys a ! index = ys sub ! j"
    by (auto split: if_splits)
  have d: "distinct (map fst rest)" "index \<notin> fst ` set rest"
    using Cons.prems(2) q by auto
  have b: "\<forall>p\<in>set rest. fst p < length (xs ?a1) \<and> fst p < length (ys ?a1)"
    using Cons.prems(3) by simp
  have i: "index < length (xs a)" "index < length (ys a)"
    using Cons.prems(3) q by simp_all
  note IH = Cons.IH [OF rec d(1) b]
  from IH have other: "k \<notin> fst ` set rest \<Longrightarrow> xs a' ! k = xs ?a1 ! k \<and> ys a' ! k = ys ?a1 ! k"
    for k by blast
  from IH have inside: "p \<in> set rest \<Longrightarrow>
      xs a' ! fst p = xs sub ! snd p \<and> ys a' ! fst p = ys sub ! snd p
      \<and> (expr (ys ?a1 ! fst p) \<noteq> None \<longrightarrow> ys ?a1 ! fst p = ys sub ! snd p)" for p
    by blast
  have 1: "\<forall>k. k \<notin> fst ` set (q # rest) \<longrightarrow> xs a' ! k = xs a ! k \<and> ys a' ! k = ys a ! k"
  proof (intro allI impI)
    fix k assume "k \<notin> fst ` set (q # rest)"
    then have k: "k \<noteq> index" "k \<notin> fst ` set rest" using q by auto
    from other [OF k(2)] k(1) show "xs a' ! k = xs a ! k \<and> ys a' ! k = ys a ! k"
      by simp
  qed
  have 2: "\<forall>p\<in>set (q # rest). xs a' ! fst p = xs sub ! snd p \<and> ys a' ! fst p = ys sub ! snd p
             \<and> (expr (ys a ! fst p) \<noteq> None \<longrightarrow> ys a ! fst p = ys sub ! snd p)"
  proof
    fix p assume p: "p \<in> set (q # rest)"
    show "xs a' ! fst p = xs sub ! snd p \<and> ys a' ! fst p = ys sub ! snd p
          \<and> (expr (ys a ! fst p) \<noteq> None \<longrightarrow> ys a ! fst p = ys sub ! snd p)"
    proof (cases "p = q")
      case True
      from other [OF d(2)] i have "xs a' ! index = xs sub ! j \<and> ys a' ! index = ys sub ! j"
        by simp
      with True q chk show ?thesis by simp
    next
      case False
      with p have pr: "p \<in> set rest" by simp
      then have ne: "fst p \<noteq> index" using d(2) by force
      from inside [OF pr] ne show ?thesis by simp
    qed
  qed
  from 1 2 show ?case by (rule conjI)
qed

text \<open>The same for the copy of a successful match of the elements of the subgraph.\<close>

lemma merged_match_entries:
  assumes fm: "find_match ext table (map (\<lambda>index. xn ! index) l) (map (\<lambda>index. yn ! index) l)
                 sub_xp sub_exprs (AssociativeOp_sized (length l)) = Returned (True, sub)"
    and merge: "merge_subgraph (zip l [0..<length l]) sub a = Some a'"
    and l: "distinct l" "\<forall>k\<in>set l. k < length (xs a) \<and> k < length (ys a)"
  shows "(\<forall>k. k \<notin> set l \<longrightarrow> xs a' ! k = xs a ! k \<and> ys a' ! k = ys a ! k)
       \<and> (\<forall>k\<in>set l. var (xs a' ! k) = xn ! k \<and> var (ys a' ! k) = yn ! k
             \<and> (\<exists>y. expr (ys a' ! k) = Some y
                    \<and> \<not> expr_uses_vars y (map (\<lambda>index. xn ! index) l))
             \<and> (expr (ys a ! k) \<noteq> None \<longrightarrow> ys a' ! k = ys a ! k))"
proof -
  let ?pairs = "zip l [0..<length l]"
  have fst_pairs: "map fst ?pairs = l"
    by (simp add: map_fst_zip)
  have dist: "distinct (map fst ?pairs)"
    unfolding fst_pairs by (rule l(1))
  have bound: "\<forall>p\<in>set ?pairs. fst p < length (xs a) \<and> fst p < length (ys a)"
    using l(2) by (auto simp: zip_upt_set)
  note ent = merge_subgraph_entries [OF merge dist bound]
  have img: "fst ` set ?pairs = set l"
    using fst_pairs by (metis set_map)
  have init: "length (xs (AssociativeOp_sized (length l))) = length (map (\<lambda>index. xn ! index) l)"
    "length (ys (AssociativeOp_sized (length l))) = length (map (\<lambda>index. yn ! index) l)"
    by (simp_all add: AssociativeOp_sized_def)
  have 1: "\<forall>k. k \<notin> set l \<longrightarrow> xs a' ! k = xs a ! k \<and> ys a' ! k = ys a ! k"
    using ent img by simp
  have 2: "\<forall>k\<in>set l. var (xs a' ! k) = xn ! k \<and> var (ys a' ! k) = yn ! k
             \<and> (\<exists>y. expr (ys a' ! k) = Some y
                    \<and> \<not> expr_uses_vars y (map (\<lambda>index. xn ! index) l))
             \<and> (expr (ys a ! k) \<noteq> None \<longrightarrow> ys a' ! k = ys a ! k)"
  proof
    fix k assume "k \<in> set l"
    then obtain t where t: "t < length l" "k = l ! t"
      by (auto simp: in_set_conv_nth)
    then have "(k, t) \<in> set ?pairs"
      by (auto simp: zip_upt_set)
    with ent have e: "xs a' ! k = xs sub ! t" "ys a' ! k = ys sub ! t"
      "expr (ys a ! k) \<noteq> None \<longrightarrow> ys a ! k = ys sub ! t"
      by force+
    from find_match_entries [OF fm init, of t] t
    have "var (xs sub ! t) = xn ! k" "var (ys sub ! t) = yn ! k"
      "\<exists>y. expr (ys sub ! t) = Some y \<and> \<not> expr_uses_vars y (map (\<lambda>index. xn ! index) l)"
      by simp_all
    with e show "var (xs a' ! k) = xn ! k \<and> var (ys a' ! k) = yn ! k
             \<and> (\<exists>y. expr (ys a' ! k) = Some y
                    \<and> \<not> expr_uses_vars y (map (\<lambda>index. xn ! index) l))
             \<and> (expr (ys a ! k) \<noteq> None \<longrightarrow> ys a' ! k = ys a ! k)"
      by simp
  qed
  from 1 2 show ?thesis by (rule conjI)
qed

lemma merge_subgraph_independent:
  assumes "merge_subgraph pairs sub a = Some a'" "y_independent a"
    and "\<forall>p\<in>set pairs. y_free_of_x (xs sub ! snd p) (ys sub ! snd p)"
  shows "y_independent a'"
  using assms
proof (induction pairs arbitrary: a)
  case Nil
  then show ?case by simp
next
  case (Cons p rest)
  obtain index j where p: "p = (index, j)" by (cases p) auto
  let ?a1 = "set_y index (ys sub ! j) (set_x index (xs sub ! j)
               (set_identity index (identities (pattern sub) ! j)
                 (set_op index (ops (pattern sub) ! j) a)))"
  from Cons.prems(1) p have rec: "merge_subgraph rest sub ?a1 = Some a'"
    by (simp split: if_splits)
  have "y_free_of_x (xs sub ! j) (ys sub ! j)"
    using Cons.prems(3) p by simp
  then have a1: "y_independent ?a1"
    using Cons.prems(2) by (simp add: y_independent_update)
  have rest: "\<forall>p\<in>set rest. y_free_of_x (xs sub ! snd p) (ys sub ! snd p)"
    using Cons.prems(3) by simp
  show ?case
    by (rule Cons.IH [OF rec a1 rest])
qed

lemma y_independent_default: "y_independent AssociativeOp_default"
  unfolding AssociativeOp_default_def by (rule y_independent_sized)

lemma prove_subgraph_independent:
  assumes "prove_subgraph ext xn yn xp es subgraphs i a = Inr a'" "y_independent a"
  shows "y_independent a'"
proof -
  let ?L = "sorted_list_of_set (subgraphs ! i)"
  from prove_subgraph_Inr [OF assms(1)] show ?thesis
  proof (elim disjE exE conjE)
    assume "a' = a"
    with assms(2) show ?thesis by simp
  next
    fix sub
    assume fm: "find_match ext (get_ops_table ext (map (\<lambda>index. es ! index) ?L))
                  (map (\<lambda>index. xn ! index) ?L) (map (\<lambda>index. yn ! index) ?L)
                  (map (\<lambda>index. xp ! index) ?L) (map (\<lambda>index. es ! index) ?L)
                  (AssociativeOp_sized (length ?L)) = Returned (True, sub)"
      and merge: "merge_subgraph (zip ?L [0..<length ?L]) sub a = Some a'"
    have init: "length (xs (AssociativeOp_sized (length ?L))) = length (map (\<lambda>index. xn ! index) ?L)"
      "length (ys (AssociativeOp_sized (length ?L))) = length (map (\<lambda>index. yn ! index) ?L)"
      by (simp_all add: AssociativeOp_sized_def)
    have sub: "y_independent sub"
      by (rule find_match_independent [OF fm init])
    have "sized (length ?L) sub"
      by (rule find_match_sized [OF fm]) simp
    then have len: "length (xs sub) = length ?L"
      by (simp add: sized_def)
    have "\<forall>p\<in>set (zip ?L [0..<length ?L]). y_free_of_x (xs sub ! snd p) (ys sub ! snd p)"
    proof
      fix p assume "p \<in> set (zip ?L [0..<length ?L])"
      then have "snd p < length (xs sub)"
        using len by (auto simp: in_set_zip)
      with sub show "y_free_of_x (xs sub ! snd p) (ys sub ! snd p)"
        unfolding y_independent_def by (rule list_all2_nthD)
    qed
    with merge assms(2) show ?thesis
      by (rule merge_subgraph_independent)
  qed
qed

text \<open>
  The subgraphs proved before keep what they were proved to have, and the subgraph of this
  iteration has it after the copy.
\<close>

lemma jointly_free_kept:
  assumes "jointly_free xn a S"
    and "\<And>j. var (xs a ! j) = xn ! j \<Longrightarrow> var (xs a' ! j) = xn ! j"
    and "\<And>i. expr (ys a ! i) \<noteq> None \<Longrightarrow> ys a' ! i = ys a ! i"
  shows "jointly_free xn a' S"
  unfolding jointly_free_def
proof (intro ballI)
  fix i j
  assume i: "i \<in> set (sorted_list_of_set S)" and j: "j \<in> set (sorted_list_of_set S)"
  from assms(1) i j have old: "var (xs a ! j) = xn ! j"
    "case expr (ys a ! i) of None \<Rightarrow> False | Some y \<Rightarrow> \<not> expr_uses_var y (xn ! j)"
    by (simp_all add: jointly_free_def)
  from old(2) have "expr (ys a ! i) \<noteq> None"
    by (auto split: option.splits)
  from assms(3) [OF this] old assms(2) [OF old(1)]
  show "var (xs a' ! j) = xn ! j
        \<and> (case expr (ys a' ! i) of None \<Rightarrow> False | Some y \<Rightarrow> \<not> expr_uses_var y (xn ! j))"
    by simp
qed

lemma prove_subgraph_jointly:
  assumes step: "prove_subgraph ext xn yn xp es subgraphs i a = Inr a'"
    and sz: "sized (length es) a"
    and before: "\<forall>k\<in>set ks. jointly_free xn a (subgraphs ! k)"
  shows "\<forall>k\<in>set (ks @ [i]). jointly_free xn a' (subgraphs ! k)"
proof -
  let ?L = "sorted_list_of_set (subgraphs ! i)"
  from prove_subgraph_Inr [OF step] show ?thesis
  proof (elim disjE exE conjE)
    assume "subgraphs ! i = {}" "a' = a"
    with before show ?thesis by (simp add: jointly_free_def)
  next
    fix sub
    assume fm: "find_match ext (get_ops_table ext (map (\<lambda>index. es ! index) ?L))
                  (map (\<lambda>index. xn ! index) ?L) (map (\<lambda>index. yn ! index) ?L)
                  (map (\<lambda>index. xp ! index) ?L) (map (\<lambda>index. es ! index) ?L)
                  (AssociativeOp_sized (length ?L)) = Returned (True, sub)"
      and merge: "merge_subgraph (zip ?L [0..<length ?L]) sub a = Some a'"
      and bound: "\<forall>k\<in>set ?L. k < length es"
    have l: "distinct ?L" "\<forall>k\<in>set ?L. k < length (xs a) \<and> k < length (ys a)"
      using bound sz by (simp_all add: sized_def)
    note ent = merged_match_entries [OF fm merge l]
    from ent have out: "k \<notin> set ?L \<Longrightarrow> xs a' ! k = xs a ! k \<and> ys a' ! k = ys a ! k" for k
      by blast
    from ent have ins: "k \<in> set ?L \<Longrightarrow> var (xs a' ! k) = xn ! k
             \<and> (\<exists>y. expr (ys a' ! k) = Some y
                    \<and> \<not> expr_uses_vars y (map (\<lambda>index. xn ! index) ?L))
             \<and> (expr (ys a ! k) \<noteq> None \<longrightarrow> ys a' ! k = ys a ! k)" for k
      by blast
    have new: "jointly_free xn a' (subgraphs ! i)"
      unfolding jointly_free_def
    proof (intro ballI)
      fix p q assume p: "p \<in> set ?L" and q: "q \<in> set ?L"
      from ins [OF p] obtain y where y: "expr (ys a' ! p) = Some y"
        "\<not> expr_uses_vars y (map (\<lambda>index. xn ! index) ?L)" by blast
      from y(2) q have "\<not> expr_uses_var y (xn ! q)"
        by (auto simp: expr_uses_vars_def list_ex_iff)
      with y(1) ins [OF q]
      show "var (xs a' ! q) = xn ! q
            \<and> (case expr (ys a' ! p) of None \<Rightarrow> False | Some y \<Rightarrow> \<not> expr_uses_var y (xn ! q))"
        by simp
    qed
    have old: "jointly_free xn a' (subgraphs ! k)" if "k \<in> set ks" for k
    proof (rule jointly_free_kept)
      show "jointly_free xn a (subgraphs ! k)"
        using before that by simp
    next
      fix j assume "var (xs a ! j) = xn ! j"
      then show "var (xs a' ! j) = xn ! j"
        using out [of j] ins [of j] by (cases "j \<in> set ?L") simp_all
    next
      fix j assume "expr (ys a ! j) \<noteq> None"
      then show "ys a' ! j = ys a ! j"
        using out [of j] ins [of j] by (cases "j \<in> set ?L") simp_all
    qed
    from new old show ?thesis by auto
  qed
qed

subsection \<open>The whole prover\<close>

lemma for_loop_Inr_indexed:
  assumes "for_loop body idxs s = Inr s'" and "I ks s"
    and "\<And>i ks s s'. I ks s \<Longrightarrow> body i s = Inr s' \<Longrightarrow> I (ks @ [i]) s'"
  shows "I (ks @ idxs) s'"
  using assms(1,2)
proof (induction idxs arbitrary: s ks)
  case Nil
  then show ?case by simp
next
  case (Cons i idxs)
  from Cons.prems(1) obtain s1 where b: "body i s = Inr s1"
    and r: "for_loop body idxs s1 = Inr s'"
    by (cases "body i s") auto
  have "I (ks @ [i]) s1"
    using Cons.prems(2) b by (rule assms(3))
  from Cons.IH [OF r this] show ?case by simp
qed

text \<open>
  An associative result comes from a loop that ran to its end: the result is the state the
  loop ended in, with the flag set.
\<close>

lemma finish_loop_associative:
  assumes "finish (for_loop body idxs a0) = Returned r" and "is_associative r"
    and "\<And>i s e. body i s = Inl e \<Longrightarrow> e = Aborted \<or> e = Returned AssociativeOp_default"
  shows "\<exists>s. for_loop body idxs a0 = Inr s \<and> r = s\<lparr>is_associative := True\<rparr>"
proof (cases "for_loop body idxs a0")
  case (Inl e)
  from for_loop_Inl [OF Inl] assms(3)
  have "e = Aborted \<or> e = Returned AssociativeOp_default" by blast
  moreover from assms(1) Inl have "e = Returned r" by (simp add: finish_def)
  ultimately have "r = AssociativeOp_default" by simp
  with assms(2) show ?thesis
    by (simp add: AssociativeOp_default_def AssociativeOp_sized_def)
next
  case (Inr s)
  with assms(1) show ?thesis by (simp add: finish_def)
qed

lemma finish_loop_independent:
  assumes "finish (for_loop body idxs a0) = Returned r"
    and "y_independent a0"
    and "\<And>i s e. body i s = Inl e \<Longrightarrow> e = Aborted \<or> e = Returned AssociativeOp_default"
    and "\<And>i s s'. y_independent s \<Longrightarrow> body i s = Inr s' \<Longrightarrow> y_independent s'"
  shows "y_independent r"
proof (cases "for_loop body idxs a0")
  case (Inl e)
  from for_loop_Inl [OF Inl] assms(3)
  have "e = Aborted \<or> e = Returned AssociativeOp_default" by blast
  moreover from assms(1) Inl have "e = Returned r" by (simp add: finish_def)
  ultimately show ?thesis by (simp add: y_independent_default)
next
  case (Inr s')
  have "y_independent s'"
  proof (rule for_loop_Inr [where I = y_independent, OF Inr assms(2)])
    fix i s s'' assume "y_independent s" "body i s = Inr s''"
    then show "y_independent s''" by (rule assms(4))
  qed
  moreover from assms(1) Inr have "r = s'\<lparr>is_associative := True\<rparr>"
    by (simp add: finish_def)
  ultimately show ?thesis by simp
qed

lemma prove_with_names_independent:
  assumes "prove_with_names ext f lhs_args exprs xn yn = Returned r"
  shows "y_independent r"
proof (cases "first_loop ext f lhs_args xn exprs")
  case (Inl e)
  from for_loop_Inl [OF Inl [unfolded first_loop_def]] convert_element_Inl
  have "e = Aborted \<or> e = Returned AssociativeOp_default" by blast
  moreover from prove_with_names_early [OF Inl, of yn] assms have "e = Returned r"
    by simp
  ultimately show ?thesis by (simp add: y_independent_default)
next
  case (Inr st)
  obtain es xp deps ai where st: "st = (es, xp, deps, ai)" by (cases st) auto
  note fl = Inr [unfolded st]
  let ?n = "length exprs"
  show ?thesis
  proof (cases "ai \<or> ?n = 1")
    case True
    from prove_with_names_elements [OF fl True, of yn] assms
    have "finish (for_loop (prove_element ext xn yn xp es) [0..<?n] (AssociativeOp_sized ?n))
          = Returned r"
      by simp
    then show ?thesis
    proof (rule finish_loop_independent [OF _ y_independent_sized])
      fix i s e assume "prove_element ext xn yn xp es i s = Inl e"
      then show "e = Aborted \<or> e = Returned AssociativeOp_default"
        by (rule prove_element_Inl)
    next
      fix i s s' assume "y_independent s" "prove_element ext xn yn xp es i s = Inr s'"
      then show "y_independent s'"
        by (rule prove_element_independent [rotated])
    qed
  next
    case False
    let ?sg = "compute_subgraphs (fst (atd_pass deps))"
    have atd: "add_transitive_dependencies deps = Some (fst (atd_pass deps))"
      by (simp add: add_transitive_dependencies_one_pass)
    from prove_with_names_subgraphs [OF fl False atd, of yn] assms
    have "finish (for_loop (prove_subgraph ext xn yn xp es ?sg) [0..<?n] (AssociativeOp_sized ?n))
          = Returned r"
      by simp
    then show ?thesis
    proof (rule finish_loop_independent [OF _ y_independent_sized])
      fix i s e assume "prove_subgraph ext xn yn xp es ?sg i s = Inl e"
      then show "e = Aborted \<or> e = Returned AssociativeOp_default"
        using prove_subgraph_result [of ext xn yn xp es ?sg i s ?n] by blast
    next
      fix i s s' assume "y_independent s" "prove_subgraph ext xn yn xp es ?sg i s = Inr s'"
      then show "y_independent s'"
        by (rule prove_subgraph_independent [rotated])
    qed
  qed
qed

lemma prove_with_names_jointly:
  assumes p: "prove_with_names ext f lhs_args exprs xn yn = Returned r"
    and assoc: "is_associative r"
    and S: "S \<in> set (prover_subgraphs ext f lhs_args xn exprs)"
  shows "jointly_free xn r S"
proof (cases "first_loop ext f lhs_args xn exprs")
  case (Inl e)
  with S show ?thesis by (simp add: prover_subgraphs_def)
next
  case (Inr st)
  obtain es xp deps ai where st: "st = (es, xp, deps, ai)" by (cases st) auto
  note fl = Inr [unfolded st]
  let ?n = "length exprs"
  have joint: "\<not> (ai \<or> ?n = 1)"
    using S fl by (auto simp: prover_subgraphs_def)
  let ?sg = "compute_subgraphs (fst (atd_pass deps))"
  have atd: "add_transitive_dependencies deps = Some (fst (atd_pass deps))"
    by (simp add: add_transitive_dependencies_one_pass)
  have sg: "prover_subgraphs ext f lhs_args xn exprs = ?sg"
    using fl joint atd by (simp add: prover_subgraphs_def)
  have len: "length es = ?n" "length ?sg = ?n"
    using first_loop_lengths [OF fl] by (simp_all add: compute_subgraphs_length atd_pass_length)
  let ?body = "prove_subgraph ext xn yn xp es ?sg"
  from prove_with_names_subgraphs [OF fl joint atd, of yn] p
  have fin: "finish (for_loop ?body [0..<?n] (AssociativeOp_sized ?n)) = Returned r"
    by simp
  have "\<exists>s. for_loop ?body [0..<?n] (AssociativeOp_sized ?n) = Inr s
             \<and> r = s\<lparr>is_associative := True\<rparr>"
    using fin assoc
  proof (rule finish_loop_associative)
    fix i s e assume "?body i s = Inl e"
    then show "e = Aborted \<or> e = Returned AssociativeOp_default"
      using prove_subgraph_result [of ext xn yn xp es ?sg i s ?n] by blast
  qed
  then obtain s where loop: "for_loop ?body [0..<?n] (AssociativeOp_sized ?n) = Inr s"
    and r: "r = s\<lparr>is_associative := True\<rparr>" by blast
  let ?I = "\<lambda>ks a. sized ?n a \<and> (\<forall>k\<in>set ks. jointly_free xn a (?sg ! k))"
  have "?I ([] @ [0..<?n]) s"
  proof (rule for_loop_Inr_indexed [where I = ?I, OF loop])
    show "?I [] (AssociativeOp_sized ?n)" by simp
  next
    fix i ks a a'
    assume I: "?I ks a" and b: "?body i a = Inr a'"
    from I have sz: "sized (length es) a" using len by simp
    from prove_subgraph_result [of ext xn yn xp es ?sg i a ?n] b I
    have "sized ?n a'" by simp
    moreover from I have "\<forall>k\<in>set ks. jointly_free xn a (?sg ! k)" by simp
    from prove_subgraph_jointly [OF b sz this]
    have "\<forall>k\<in>set (ks @ [i]). jointly_free xn a' (?sg ! k)" .
    ultimately show "?I (ks @ [i]) a'" by simp
  qed
  then have all: "\<forall>k<?n. jointly_free xn s (?sg ! k)" by simp
  from S sg obtain k where "k < ?n" "S = ?sg ! k"
    using len by (auto simp: in_set_conv_nth)
  with all have "jointly_free xn s S" by simp
  then show ?thesis
    unfolding r by (simp add: jointly_free_def)
qed

text \<open>
  Claim C3, amended. Where \<^verbatim>\<open>prove_associativity\<close> returns an associative result, the
  expression of the \<open>y\<close> replacement at the tuple index \<open>i\<close> does not use the variable of the
  \<open>x\<close> replacement at the tuple index \<open>j\<close> for the pairs of indices that the prover checks
  together: \<open>i = j\<close>, where the \<open>x\<close> replacement has an expression, and \<open>i\<close> and \<open>j\<close> members
  of one subgraph, whose elements one call of \<^verbatim>\<open>find_match\<close> matches against the table. This
  holds for every instance of the external collaborators and every generator of names.
\<close>

theorem y_part_free_of_x_where_checked:
  assumes "fst (prove_associativity ext unique_name f lhs_args exprs g) = Returned r"
    and "is_associative r"
    and "i < length exprs" and "j < length exprs"
    and "i = j \<and> expr (xs r ! i) \<noteq> None
         \<or> proved_together
             (prover_subgraphs ext f lhs_args (drawn_x_names unique_name (length exprs) g) exprs)
             i j"
    and "expr (ys r ! i) = Some y"
  shows "\<not> expr_uses_var y (var (xs r ! j))"
proof -
  let ?xn = "drawn_x_names unique_name (length exprs) g"
  let ?yn = "drawn_y_names unique_name (length exprs) g"
  from assms(1) have p: "prove_with_names ext f lhs_args exprs ?xn ?yn = Returned r"
    by (simp add: prove_associativity_names)
  from assms(5) show ?thesis
  proof
    assume same: "i = j \<and> expr (xs r ! i) \<noteq> None"
    from prove_with_names_result [of ext f lhs_args exprs ?xn ?yn] p assms(2)
    have "sized (length exprs) r"
      by (auto simp: AssociativeOp_default_def AssociativeOp_sized_def)
    with assms(3) have i: "i < length (xs r)"
      by (simp add: sized_def)
    from prove_with_names_independent [OF p] have "list_all2 y_free_of_x (xs r) (ys r)"
      by (simp add: y_independent_def)
    from list_all2_nthD [OF this i] have "y_free_of_x (xs r ! i) (ys r ! i)" .
    with same assms(6) show ?thesis
      by (auto simp: y_free_of_x_def)
  next
    assume "proved_together (prover_subgraphs ext f lhs_args ?xn exprs) i j"
    then obtain S where S: "S \<in> set (prover_subgraphs ext f lhs_args ?xn exprs)"
      and ij: "i \<in> set (sorted_list_of_set S)" "j \<in> set (sorted_list_of_set S)"
      by (auto simp: proved_together_def list_ex_iff)
    from prove_with_names_jointly [OF p assms(2) S] ij assms(6)
    show ?thesis
      by (auto simp: jointly_free_def)
  qed
qed

theorem y_part_free_of_x_where_checked_witness:
  "fst (prove_associativity test_externals counter_name ''f'' [lhs_x]
          [Bin Min_op (call_f 0) (call_g 0),
           Select (Bin LT (call_f 0) (call_g 0)) (call_f 1) var_rx] 0)
     = Returned
         \<lparr>pattern = \<lparr>ops = [Some (Bin Min_op (Variable i32 ''_x_0$0'') (Variable i32 ''_y_0$1'')),
                             Some (Select (Bin LT (Variable i32 ''_x_0$0'') (Variable i32 ''_y_0$1''))
                                     (Variable i32 ''_x_1$2'') (Variable i32 ''_y_1$3''))],
                      identities = [Some (IntImm i32 2147483647), Some (IntImm i32 0)],
                      is_commutative = False\<rparr>,
          xs = [\<lparr>var = ''_x_0$0'', expr = Some (call_f 0)\<rparr>,
                \<lparr>var = ''_x_1$2'', expr = Some (call_f 1)\<rparr>],
          ys = [\<lparr>var = ''_y_0$1'', expr = Some (call_g 0)\<rparr>,
                \<lparr>var = ''_y_1$3'', expr = Some var_rx\<rparr>],
          is_associative = True\<rparr>
   \<and> proved_together
        (prover_subgraphs test_externals ''f'' [lhs_x] (drawn_x_names counter_name 2 0)
           [Bin Min_op (call_f 0) (call_g 0),
            Select (Bin LT (call_f 0) (call_g 0)) (call_f 1) var_rx]) 0 1
   \<and> \<not> expr_uses_var (call_g 0) ''_x_1$2''"
proof -
  let ?exprs = "[Bin Min_op (call_f 0) (call_g 0),
                 Select (Bin LT (call_f 0) (call_g 0)) (call_f 1) var_rx]"
  let ?r = "\<lparr>pattern = \<lparr>ops = [Some (Bin Min_op (Variable i32 ''_x_0$0'') (Variable i32 ''_y_0$1'')),
                             Some (Select (Bin LT (Variable i32 ''_x_0$0'') (Variable i32 ''_y_0$1''))
                                     (Variable i32 ''_x_1$2'') (Variable i32 ''_y_1$3''))],
                      identities = [Some (IntImm i32 2147483647), Some (IntImm i32 0)],
                      is_commutative = False\<rparr>,
          xs = [\<lparr>var = ''_x_0$0'', expr = Some (call_f 0)\<rparr>,
                \<lparr>var = ''_x_1$2'', expr = Some (call_f 1)\<rparr>],
          ys = [\<lparr>var = ''_y_0$1'', expr = Some (call_g 0)\<rparr>,
                \<lparr>var = ''_y_1$3'', expr = Some var_rx\<rparr>],
          is_associative = True\<rparr>"
  have r: "fst (prove_associativity test_externals counter_name ''f'' [lhs_x] ?exprs 0)
           = Returned ?r"
    by code_simp
  have t: "proved_together
             (prover_subgraphs test_externals ''f'' [lhs_x]
                (drawn_x_names counter_name (length ?exprs) 0) ?exprs) 0 1"
    by code_simp
  have "\<not> expr_uses_var (call_g 0) (var (xs ?r ! 1))"
    by (rule y_part_free_of_x_where_checked [OF r _ _ _ disjI2 [OF t]]) simp_all
  then have n: "\<not> expr_uses_var (call_g 0) ''_x_1$2''"
    by simp
  have t2: "proved_together
              (prover_subgraphs test_externals ''f'' [lhs_x] (drawn_x_names counter_name 2 0)
                 ?exprs) 0 1"
    using t by (simp add: numeral_2_eq_2)
  show ?thesis
    by (rule conjI [OF r conjI [OF t2 n]])
qed

text \<open>
  Claim C3 as stated ranges over every pair of indices. The extractor of a single element
  checks the right operand against the \<open>x\<close> variable of its own index only, and two elements
  that do not refer to each other are proved apart: in the update
  \<open>(f(x)[0] + v, f(x)[1] + g(rx)[0])\<close>, where \<open>v\<close> is a variable with the name drawn for the
  \<open>x\<close> variable of index 1, the \<open>y\<close> replacement at index 0 is \<open>v\<close>, and it uses the variable
  of the \<open>x\<close> replacement at index 1.
\<close>

theorem y_part_references_other_x:
  "associative_outcome (fst (prove_associativity test_externals counter_name ''f'' [lhs_x]
       [Bin Add (call_f 0) (Variable i32 ''_x_1$2''), Bin Add (call_f 1) (call_g 0)] 0))
   \<and> expr (ys (result_of (fst (prove_associativity test_externals counter_name ''f'' [lhs_x]
       [Bin Add (call_f 0) (Variable i32 ''_x_1$2''), Bin Add (call_f 1) (call_g 0)] 0))) ! 0)
       = Some (Variable i32 ''_x_1$2'')
   \<and> var (xs (result_of (fst (prove_associativity test_externals counter_name ''f'' [lhs_x]
       [Bin Add (call_f 0) (Variable i32 ''_x_1$2''), Bin Add (call_f 1) (call_g 0)] 0))) ! 1)
       = ''_x_1$2''
   \<and> expr_uses_var (Variable i32 ''_x_1$2'') ''_x_1$2''"
  by code_simp

section \<open>The names stored in a result\<close>

lemma names_kept_set [simp]:
  "names_kept xn yn (set_op i v a) = names_kept xn yn a"
  "names_kept xn yn (set_identity i v a) = names_kept xn yn a"
  "names_kept xn yn (a\<lparr>is_associative := b\<rparr>) = names_kept xn yn a"
  by (simp_all add: names_kept_def)



subsection \<open>The single-element extractor\<close>





subsection \<open>The subgraphs and the whole prover\<close>







section \<open>Associativity of the operators\<close>

subsection \<open>The six binary operators on integers\<close>









subsection \<open>The entries written by the extractor\<close>




lemma entry_ok_flag [simp]: "entry_ok (a\<lparr>is_associative := b\<rparr>) i = entry_ok a i"
  by (simp add: entry_ok_def split: option.splits)






lemma chain_entries_flag [simp]:
  "chain_entries n chain (a\<lparr>is_associative := b\<rparr>) = chain_entries n chain a"
  by (simp add: chain_entries_def)






end
